theory Spec2Isabelle
  imports Complex_Main "HOL-Library.Word"
begin

unbundle bit_operations_syntax

section \<open>Quantum-Hamiltonian-Simulation: state-preparation helpers\<close>

text \<open>
  The repository holds two notebooks. The Grover-Rudolph notebook defines \<^verbatim>\<open>GRA(n, dist, a, b)\<close>,
  which tabulates interval masses of a density and emits a circuit of controlled rotations.
  The main notebook defines \<^verbatim>\<open>binary_approx(n, k)\<close>, \<^verbatim>\<open>f(mu, sigma, n)\<close>,
  \<^verbatim>\<open>angle(mu, sigma, n=1000)\<close> and the unfinished \<^verbatim>\<open>KWA(mu, sigma, k, N)\<close>.

  Conventions of the embedding.
  \<^item> A Python float is an IEEE double. In \<^verbatim>\<open>binary_approx\<close>, whose only operations are
    \<^verbatim>\<open>+\<close>, \<^verbatim>\<open>/\<close> and \<^verbatim>\<open>>\<close>, every result is the exact result rounded to the nearest
    double (\<open>round_double\<close>). In \<^verbatim>\<open>f\<close>, \<^verbatim>\<open>angle\<close> and \<^verbatim>\<open>norm\<close> the events of the range are
    modelled: \<^verbatim>\<open>float(sigma**2)\<close> is rounded, raises \<^verbatim>\<open>OverflowError\<close> above the largest double
    and is \<open>0\<close> below the smallest; \<^verbatim>\<open>np.exp\<close> is \<open>0\<close> where the exponential is nearer to \<open>0\<close>
    than to the smallest double; a sum or a quotient of the values in between is that of
    the reals. In \<^verbatim>\<open>GRA\<close> the bounds of the intervals and the quotient of two integrals are
    those of the reals, and a statement about the tables is a statement about the values that
    the integrator returns.
  \<^item> The numbers that a call receives (\<^verbatim>\<open>n\<close> of \<^verbatim>\<open>binary_approx\<close>, \<^verbatim>\<open>mu\<close>, \<^verbatim>\<open>sigma\<close>, \<^verbatim>\<open>a\<close>,
    \<^verbatim>\<open>b\<close>) are finite Python floats, written as the reals they are; the counts \<^verbatim>\<open>k\<close> and the
    truncation bound \<^verbatim>\<open>n\<close> of \<^verbatim>\<open>f\<close> are Python integers.
  \<^item> The value \<^verbatim>\<open>nan\<close>, which numpy returns where a function is applied outside its domain,
    is \<open>None\<close> of the type \<open>npfloat\<close>; it propagates through arithmetic.
  \<^item> \<^verbatim>\<open>scipy.integrate.quad\<close> is a library routine: it is a parameter \<open>quad\<close> of the model,
    \<open>quad distr lo hi\<close> standing for \<^verbatim>\<open>integrate.quad(dist, lo, hi)[0]\<close>, the number the routine
    returns, which need not be the integral.
  \<^item> A raised exception is the \<open>Inl\<close> branch of a sum type.
  \<^item> The circuit object is the list of instructions appended to it, in order.
  \<^item> The qubit count \<open>n\<close> is a natural number: with a negative count the source fails when
    it creates the register.
  \<^item> The source parameter \<^verbatim>\<open>dist\<close> is written \<open>distr\<close>, the local \<^verbatim>\<open>total\<close> is written
    \<open>tot\<close> and the function \<^verbatim>\<open>norm\<close> is written \<open>norm'\<close>, because \<open>dist\<close>, \<open>total\<close> and \<open>norm\<close>
    are constants of the library.
\<close>

section \<open>Data model\<close>

datatype error = ZeroDivisionError | IndexError | CircuitError | OverflowError

type_synonym npfloat = "real option"

type_synonym integrator = "(real \<Rightarrow> real) \<Rightarrow> real \<Rightarrow> real \<Rightarrow> real"

text \<open>
  The instructions that \<^verbatim>\<open>GRA\<close> appends: \<^verbatim>\<open>qc.rx(theta, q)\<close>, \<^verbatim>\<open>qc.x(q)\<close>,
  \<^verbatim>\<open>qc.mcrx(theta, controls, target)\<close>, \<^verbatim>\<open>qc.barrier()\<close> and \<^verbatim>\<open>qc.swap(p, q)\<close>.
  A qubit is its index in the register.
\<close>

datatype instr = Rx npfloat nat | X nat | Mcrx npfloat "nat list" nat | Barrier | Swap nat nat

subsection \<open>numpy scalar functions\<close>

text \<open>
  \<^verbatim>\<open>numpy.sqrt\<close> of a negative float and \<^verbatim>\<open>numpy.arccos\<close> outside \<open>[-1, 1]\<close> return
  \<^verbatim>\<open>nan\<close> (with a warning, without raising); \<^verbatim>\<open>2 * nan\<close> is \<^verbatim>\<open>nan\<close>.
\<close>

definition np_sqrt :: "real \<Rightarrow> npfloat" where
  "np_sqrt x = (if x < 0 then None else Some (sqrt x))"

definition np_arccos :: "npfloat \<Rightarrow> npfloat" where
  "np_arccos v = (case v of None \<Rightarrow> None
                  | Some x \<Rightarrow> if - 1 \<le> x \<and> x \<le> 1 then Some (arccos x) else None)"

definition np_double :: "npfloat \<Rightarrow> npfloat" where
  "np_double v = map_option (\<lambda>t. 2 * t) v"

text \<open>Python's \<^verbatim>\<open>A[m][i]\<close> on a list of lists raises \<^verbatim>\<open>IndexError\<close> out of range.\<close>

definition index2 :: "'a list list \<Rightarrow> nat \<Rightarrow> nat \<Rightarrow> error + 'a" where
  "index2 A m i =
     (if m < length A then (if i < length (A ! m) then Inr (A ! m ! i) else Inl IndexError)
      else Inl IndexError)"

subsection \<open>Double precision\<close>

text \<open>
  A finite double is a number \<open>m * 2 ^ e\<close> with an integer \<open>m\<close>, \<open>\<bar>m\<bar> < 2 ^ 53\<close>, and
  \<open>- 1074 \<le> e\<close>, below \<open>2 ^ 1024\<close> in absolute value. \<open>quantum x\<close> is the distance between
  neighbouring doubles at the magnitude of \<open>x\<close>: \<open>2 ^ (- 1074)\<close> below the smallest normal number
  \<open>2 ^ (- 1022)\<close>, and \<open>2 ^ (E - 52)\<close> where \<open>2 ^ E \<le> \<bar>x\<bar> < 2 ^ (E + 1)\<close>. An arithmetic
  operation returns its exact result rounded to the nearest multiple of the quantum, a tie
  going to the even multiple.
\<close>

definition quantum :: "real \<Rightarrow> real" where
  "quantum x =
     (if \<bar>x\<bar> < 2 powi (- 1022) then 2 powi (- 1074) else 2 powi (\<lfloor>log 2 \<bar>x\<bar>\<rfloor> - 52))"

definition round_half_even :: "real \<Rightarrow> int" where
  "round_half_even y =
     (let z = \<lfloor>y\<rfloor>
      in if y - of_int z < 1 / 2 then z
         else if 1 / 2 < y - of_int z then z + 1
         else if even z then z else z + 1)"

definition round_double :: "real \<Rightarrow> real" where
  "round_double x = of_int (round_half_even (x / quantum x)) * quantum x"

text \<open>
  \<^verbatim>\<open>x + y\<close> on floats, and \<^verbatim>\<open>p / q\<close> on Python integers, which is the correctly rounded
  quotient. \<^verbatim>\<open>binary_approx\<close> divides \<open>0\<close> or \<open>1\<close> by a positive power of two and adds numbers
  below \<open>2\<close>, so the divisor is never zero and no result overflows.
\<close>

definition float_add :: "real \<Rightarrow> real \<Rightarrow> real" where
  "float_add x y = round_double (x + y)"

definition int_truediv :: "int \<Rightarrow> int \<Rightarrow> real" where
  "int_truediv p q = round_double (of_int p / of_int q)"

text \<open>
  \<^verbatim>\<open>np.exp\<close> returns \<open>0.0\<close> where the exponential is at most \<open>2 ^ (- 1075)\<close>, half the smallest
  positive double.
\<close>

definition np_exp :: "real \<Rightarrow> real" where
  "np_exp x = (if exp x \<le> 2 powi (- 1075) then 0 else exp x)"

text \<open>
  \<^verbatim>\<open>float(sigma**2)\<close>: the square is rounded; Python raises \<^verbatim>\<open>OverflowError\<close> when it is too
  large for a double, and a square below half the smallest positive double is \<open>0.0\<close>.
\<close>

definition float_square :: "real \<Rightarrow> error + real" where
  "float_square sigma =
     (let s = round_double (sigma ^ 2) in if 2 ^ 1024 \<le> s then Inl OverflowError else Inr s)"

section \<open>Grover-Rudolph preparation: \<^verbatim>\<open>GRA\<close>\<close>

subsection \<open>The density of the notebook\<close>


subsection \<open>The tables \<^verbatim>\<open>F\<close>, \<^verbatim>\<open>T\<close>, \<^verbatim>\<open>P\<close>\<close>

text \<open>
  The body of the inner loop over \<^verbatim>\<open>i\<close>: the four bounds, the quotient \<^verbatim>\<open>f\<close> of two
  integrals, the angle \<^verbatim>\<open>t = arccos(sqrt(f))\<close> and the mass \<^verbatim>\<open>p\<close>. The integrator returns
  Python floats, so a zero denominator raises \<^verbatim>\<open>ZeroDivisionError\<close>.
\<close>

definition GRA_node :: "integrator \<Rightarrow> (real \<Rightarrow> real) \<Rightarrow> real \<Rightarrow> real \<Rightarrow> nat \<Rightarrow> nat
    \<Rightarrow> error + (real \<times> npfloat \<times> real)" where
  "GRA_node quad distr a R m i =
     (let num_LB = a + (R / 2 ^ m) * real i;
          num_UB = num_LB + (R / 2 ^ (m + 1));
          den_LB = a + (R / 2 ^ m) * real i;
          den_UB = a + (R / 2 ^ m) * real (i + 1)
      in if quad distr den_LB den_UB = 0 then Inl ZeroDivisionError
         else let f = quad distr num_LB num_UB / quad distr den_LB den_UB;
                  t = np_arccos (np_sqrt f);
                  p = quad distr den_LB den_UB
              in Inr (f, t, p))"

text \<open>
  The loop \<^verbatim>\<open>for i in range(0, 2**m)\<close>, appending to the rows \<^verbatim>\<open>F[m]\<close>, \<^verbatim>\<open>T[m]\<close>,
  \<^verbatim>\<open>P[m]\<close>; an exception of the body ends it.
\<close>

fun GRA_level :: "integrator \<Rightarrow> (real \<Rightarrow> real) \<Rightarrow> real \<Rightarrow> real \<Rightarrow> nat \<Rightarrow> nat list
    \<Rightarrow> real list \<times> npfloat list \<times> real list
    \<Rightarrow> error + (real list \<times> npfloat list \<times> real list)" where
  "GRA_level quad distr a R m [] (Fm, Tm, Pm) = Inr (Fm, Tm, Pm)"
| "GRA_level quad distr a R m (i # is) (Fm, Tm, Pm) =
     (case GRA_node quad distr a R m i of
        Inl e \<Rightarrow> Inl e
      | Inr (f, t, p) \<Rightarrow> GRA_level quad distr a R m is (Fm @ [f], Tm @ [t], Pm @ [p]))"

text \<open>The loop \<^verbatim>\<open>for m in range(0, n+1)\<close>: a fresh row per level, filled by the inner loop.\<close>

fun GRA_levels :: "integrator \<Rightarrow> (real \<Rightarrow> real) \<Rightarrow> real \<Rightarrow> real \<Rightarrow> nat list
    \<Rightarrow> real list list \<times> npfloat list list \<times> real list list
    \<Rightarrow> error + (real list list \<times> npfloat list list \<times> real list list)" where
  "GRA_levels quad distr a R [] (F, T, P) = Inr (F, T, P)"
| "GRA_levels quad distr a R (m # ms) (F, T, P) =
     (case GRA_level quad distr a R m [0..<2 ^ m] ([], [], []) of
        Inl e \<Rightarrow> Inl e
      | Inr (Fm, Tm, Pm) \<Rightarrow> GRA_levels quad distr a R ms (F @ [Fm], T @ [Tm], P @ [Pm]))"

text \<open>The first half of \<^verbatim>\<open>GRA\<close>: \<^verbatim>\<open>R = b - a\<close>, three empty tables, the loop over the levels.\<close>

definition GRA_tables :: "integrator \<Rightarrow> nat \<Rightarrow> (real \<Rightarrow> real) \<Rightarrow> real \<Rightarrow> real
    \<Rightarrow> error + (real list list \<times> npfloat list list \<times> real list list)" where
  "GRA_tables quad n distr a b =
     (let R = b - a in GRA_levels quad distr a R [0..<n + 1] ([], [], []))"

subsection \<open>The circuit\<close>

text \<open>
  The loop \<^verbatim>\<open>for j in range(0, m)\<close> with its test \<^verbatim>\<open>i & int(2**(j)) == False\<close>. In Python
  \<^verbatim>\<open>&\<close> binds tighter than \<^verbatim>\<open>==\<close> and \<^verbatim>\<open>0 == False\<close> holds, so the test is
  \<open>i AND 2 ^ j = 0\<close>. It runs twice per pattern, before and after the rotation.
\<close>

fun x_loop :: "nat \<Rightarrow> nat \<Rightarrow> nat list \<Rightarrow> instr list \<Rightarrow> instr list" where
  "x_loop m i [] qc = qc"
| "x_loop m i (j # js) qc =
     x_loop m i js (if i AND 2 ^ j = 0 then qc @ [X (m - j - 1)] else qc)"

text \<open>The loop \<^verbatim>\<open>for i in range(0, 2**m)\<close> over the control patterns of level \<^verbatim>\<open>m\<close>.\<close>

fun pattern_loop :: "npfloat list list \<Rightarrow> nat \<Rightarrow> nat list \<Rightarrow> nat list \<Rightarrow> instr list
    \<Rightarrow> error + instr list" where
  "pattern_loop T m control_qubits [] qc = Inr qc"
| "pattern_loop T m control_qubits (i # is) qc =
     (let qc1 = x_loop m i [0..<m] qc
      in case index2 T m i of
           Inl e \<Rightarrow> Inl e
         | Inr t \<Rightarrow>
             pattern_loop T m control_qubits is
               (x_loop m i [0..<m] (qc1 @ [Mcrx (np_double t) control_qubits m])))"

text \<open>
  The loop \<^verbatim>\<open>for m in range(1, n)\<close>: a barrier, the list \<^verbatim>\<open>control_qubits\<close> of the qubits
  \<open>0, \<dots>, m - 1\<close>, then the patterns.
\<close>

fun level_loop :: "npfloat list list \<Rightarrow> nat list \<Rightarrow> instr list \<Rightarrow> error + instr list" where
  "level_loop T [] qc = Inr qc"
| "level_loop T (m # ms) qc =
     (case pattern_loop T m [0..<m] [0..<2 ^ m] (qc @ [Barrier]) of
        Inl e \<Rightarrow> Inl e
      | Inr qc' \<Rightarrow> level_loop T ms qc')"

text \<open>The two swap loops share their body \<^verbatim>\<open>qc.swap(i, n-i-1)\<close> and differ in their range.\<close>

fun swap_loop :: "nat \<Rightarrow> nat list \<Rightarrow> instr list \<Rightarrow> instr list" where
  "swap_loop n [] qc = qc"
| "swap_loop n (i # is) qc = swap_loop n is (qc @ [Swap i (n - i - 1)])"

definition swaps_even_branch :: "nat \<Rightarrow> instr list \<Rightarrow> instr list" where
  "swaps_even_branch n qc = swap_loop n [0..<n div 2] qc"

definition swaps_odd_branch :: "nat \<Rightarrow> instr list \<Rightarrow> instr list" where
  "swaps_odd_branch n qc = swap_loop n [0..<(n - 1) div 2] qc"

definition GRA_swaps :: "nat \<Rightarrow> instr list \<Rightarrow> instr list" where
  "GRA_swaps n qc = (if n mod 2 = 0 then swaps_even_branch n qc else swaps_odd_branch n qc)"

text \<open>
  The circuit up to the swaps. \<^verbatim>\<open>qc.rx(2*T[0][0], 0)\<close> addresses qubit \<open>0\<close>, which a register of
  \<open>n = 0\<close> qubits does not have: the library raises \<^verbatim>\<open>CircuitError\<close>. Every other index the
  function uses is below \<open>n\<close>.
\<close>

definition GRA_rotations :: "nat \<Rightarrow> npfloat list list \<Rightarrow> error + instr list" where
  "GRA_rotations n T =
     (case index2 T 0 0 of
        Inl e \<Rightarrow> Inl e
      | Inr t0 \<Rightarrow> if n = 0 then Inl CircuitError
                  else level_loop T [1..<n] [Rx (np_double t0) 0])"

definition GRA_circuit :: "nat \<Rightarrow> npfloat list list \<Rightarrow> error + instr list" where
  "GRA_circuit n T =
     (case GRA_rotations n T of Inl e \<Rightarrow> Inl e | Inr qc \<Rightarrow> Inr (GRA_swaps n qc))"

text \<open>\<^verbatim>\<open>GRA\<close> returns the pair \<^verbatim>\<open>(qc, P)\<close>.\<close>

definition GRA :: "integrator \<Rightarrow> nat \<Rightarrow> (real \<Rightarrow> real) \<Rightarrow> real \<Rightarrow> real
    \<Rightarrow> error + (instr list \<times> real list list)" where
  "GRA quad n distr a b =
     (case GRA_tables quad n distr a b of
        Inl e \<Rightarrow> Inl e
      | Inr (F, T, P) \<Rightarrow>
          (case GRA_circuit n T of Inl e \<Rightarrow> Inl e | Inr qc \<Rightarrow> Inr (qc, P)))"

section \<open>The main notebook\<close>

subsection \<open>\<^verbatim>\<open>binary_approx\<close>\<close>

text \<open>
  The loop \<^verbatim>\<open>for i in range(1, k+1)\<close> with the state \<^verbatim>\<open>(a, total)\<close>: the bit is set under
  the strict test \<^verbatim>\<open>n > total + 1/2**i\<close>, and \<^verbatim>\<open>total += bit/2**i\<close>. The quotients are
  quotients of Python integers and the sums are sums of floats; the comparison is exact.
\<close>

fun binary_approx_loop :: "real \<Rightarrow> nat list \<Rightarrow> nat list \<times> real \<Rightarrow> nat list \<times> real" where
  "binary_approx_loop n [] (a, tot) = (a, tot)"
| "binary_approx_loop n (i # is) (a, tot) =
     (let bit = (if n > float_add tot (int_truediv 1 (2 ^ i)) then 1 else 0)
      in binary_approx_loop n is (a @ [bit], float_add tot (int_truediv (int bit) (2 ^ i))))"

definition binary_approx :: "real \<Rightarrow> int \<Rightarrow> nat list \<times> real" where
  "binary_approx n k = binary_approx_loop n [1..<nat (k + 1)] ([], 0)"

subsection \<open>\<^verbatim>\<open>f\<close> and \<^verbatim>\<open>angle\<close>\<close>

text \<open>
  \<^verbatim>\<open>np.arange(start, stop, 1)\<close> on integers, and \<^verbatim>\<open>np.sum\<close>, which is \<^verbatim>\<open>nan\<close> when a term is.
\<close>

definition np_arange :: "int \<Rightarrow> int \<Rightarrow> int list" where
  "np_arange start stop = [start..stop - 1]"

fun np_sum :: "npfloat list \<Rightarrow> npfloat" where
  "np_sum [] = Some 0"
| "np_sum (v # vs) =
     (case v of None \<Rightarrow> None
      | Some x \<Rightarrow> (case np_sum vs of None \<Rightarrow> None | Some y \<Rightarrow> Some (x + y)))"

text \<open>
  One term \<^verbatim>\<open>np.exp((-(j - mu)**2)/s)\<close> of \<^verbatim>\<open>f\<close>, where \<open>s\<close> is \<^verbatim>\<open>float(sigma**2)\<close>. numpy
  does not raise on a zero divisor: \<^verbatim>\<open>-0.0/0.0\<close> is \<^verbatim>\<open>nan\<close>, and \<^verbatim>\<open>-x/0.0\<close> with \<open>x > 0\<close>
  is \<^verbatim>\<open>-inf\<close>, whose exponential is \<open>0\<close>.
\<close>

definition gauss_term :: "real \<Rightarrow> real \<Rightarrow> int \<Rightarrow> npfloat" where
  "gauss_term mu s j =
     (let x = (real_of_int j - mu) ^ 2
      in if s = 0 then (if round_double x = 0 then None else Some 0)
         else Some (np_exp (- x / s)))"

definition f :: "real \<Rightarrow> real \<Rightarrow> int \<Rightarrow> error + npfloat" where
  "f mu sigma n =
     (case float_square sigma of
        Inl e \<Rightarrow> Inl e
      | Inr s \<Rightarrow> Inr (np_sum (map (gauss_term mu s) (np_arange (- n) (n + 1)))))"

text \<open>
  \<^verbatim>\<open>angle(mu, sigma, n=1000)\<close>: the optional argument is an \<open>int option\<close>. The left operand
  \<^verbatim>\<open>f(mu/2, sigma/2, n)\<close> of the quotient is evaluated first. The quotient of two numpy floats
  is \<^verbatim>\<open>nan\<close> or infinite when the divisor is zero, and then the result of
  \<^verbatim>\<open>np.arccos(math.sqrt(...))\<close> is \<^verbatim>\<open>nan\<close>. The quotient is never negative, so
  \<^verbatim>\<open>math.sqrt\<close> does not raise.
\<close>

definition angle :: "real \<Rightarrow> real \<Rightarrow> int option \<Rightarrow> error + npfloat" where
  "angle mu sigma n_arg =
     (let n = (case n_arg of None \<Rightarrow> 1000 | Some n' \<Rightarrow> n')
      in case f (mu / 2) (sigma / 2) n of
           Inl e \<Rightarrow> Inl e
         | Inr x \<Rightarrow>
             (case f mu sigma n of
                Inl e \<Rightarrow> Inl e
              | Inr y \<Rightarrow>
                  Inr (case (x, y) of
                         (Some x', Some y') \<Rightarrow>
                           if y' = 0 then None else np_arccos (Some (sqrt (x' / y')))
                       | _ \<Rightarrow> None)))"

subsection \<open>\<^verbatim>\<open>KWA\<close>\<close>

text \<open>
  The body of \<^verbatim>\<open>KWA(mu, sigma, k, N)\<close> is a docstring and nothing else, so a call returns
  \<^verbatim>\<open>None\<close>. The result type is that of a function meant to build a circuit: \<open>None\<close> is
  Python's \<^verbatim>\<open>None\<close>, \<open>Some qc\<close> would be a circuit.
\<close>

definition KWA :: "'a \<Rightarrow> 'b \<Rightarrow> 'c \<Rightarrow> 'd \<Rightarrow> instr list option" where
  "KWA mu sigma k N = None"

section \<open>Vocabulary of the statements\<close>

subsection \<open>Interval masses\<close>

text \<open>
  The two integrals of a node, with the bounds as \<open>GRA_node\<close> computes them: the mass of the
  interval \<open>i\<close> of level \<open>m\<close> (the denominator, also the entry of \<^verbatim>\<open>P\<close>) and the mass of its
  left half (the numerator).
\<close>

definition den_mass :: "integrator \<Rightarrow> (real \<Rightarrow> real) \<Rightarrow> real \<Rightarrow> real \<Rightarrow> nat \<Rightarrow> nat \<Rightarrow> real" where
  "den_mass quad distr a R m i =
     quad distr (a + (R / 2 ^ m) * real i) (a + (R / 2 ^ m) * real (i + 1))"

definition num_mass :: "integrator \<Rightarrow> (real \<Rightarrow> real) \<Rightarrow> real \<Rightarrow> real \<Rightarrow> nat \<Rightarrow> nat \<Rightarrow> real" where
  "num_mass quad distr a R m i =
     quad distr (a + (R / 2 ^ m) * real i) (a + (R / 2 ^ m) * real i + R / 2 ^ (m + 1))"

definition masses_nonzero :: "integrator \<Rightarrow> nat \<Rightarrow> (real \<Rightarrow> real) \<Rightarrow> real \<Rightarrow> real \<Rightarrow> bool" where
  "masses_nonzero quad n distr a b =
     (\<forall>m \<le> n. \<forall>i < 2 ^ m. den_mass quad distr a (b - a) m i \<noteq> 0)"

definition F_row :: "integrator \<Rightarrow> (real \<Rightarrow> real) \<Rightarrow> real \<Rightarrow> real \<Rightarrow> nat \<Rightarrow> real list" where
  "F_row quad distr a R m =
     map (\<lambda>i. num_mass quad distr a R m i / den_mass quad distr a R m i) [0..<2 ^ m]"

definition T_row :: "integrator \<Rightarrow> (real \<Rightarrow> real) \<Rightarrow> real \<Rightarrow> real \<Rightarrow> nat \<Rightarrow> npfloat list" where
  "T_row quad distr a R m =
     map (\<lambda>i. np_arccos (np_sqrt (num_mass quad distr a R m i / den_mass quad distr a R m i)))
       [0..<2 ^ m]"

definition P_row :: "integrator \<Rightarrow> (real \<Rightarrow> real) \<Rightarrow> real \<Rightarrow> real \<Rightarrow> nat \<Rightarrow> real list" where
  "P_row quad distr a R m = map (\<lambda>i. den_mass quad distr a R m i) [0..<2 ^ m]"

subsection \<open>The gate sequence as the specification words it\<close>

text \<open>
  For level \<open>m\<close> and pattern \<open>i\<close>: an \<open>X\<close> on qubit \<open>m - j - 1\<close> for each position \<open>j < m\<close>, in
  increasing order, at which bit \<open>j\<close> of \<open>i\<close> is \<open>0\<close>; one multi-controlled rotation by
  \<open>2 * T[m][i]\<close> with the controls \<open>0, \<dots>, m - 1\<close> and the target \<open>m\<close>; the same \<open>X\<close> gates again.
  The whole sequence starts with the rotation of qubit \<open>0\<close> and then runs through the levels
  \<open>1, \<dots>, n - 1\<close> and, in each, the patterns \<open>0, \<dots>, 2 ^ m - 1\<close>.
\<close>

definition spec_x_gates :: "nat \<Rightarrow> nat \<Rightarrow> instr list" where
  "spec_x_gates m i = map (\<lambda>j. X (m - j - 1)) (filter (\<lambda>j. \<not> bit i j) [0..<m])"

definition spec_block :: "npfloat list list \<Rightarrow> nat \<Rightarrow> nat \<Rightarrow> instr list" where
  "spec_block T m i =
     spec_x_gates m i @ [Mcrx (np_double (T ! m ! i)) [0..<m] m] @ spec_x_gates m i"

definition spec_gate_sequence :: "nat \<Rightarrow> npfloat list list \<Rightarrow> instr list" where
  "spec_gate_sequence n T =
     Rx (np_double (T ! 0 ! 0)) 0 #
     concat (map (\<lambda>m. concat (map (\<lambda>i. spec_block T m i) [0..<2 ^ m])) [1..<n])"

text \<open>
  A barrier is an instruction of the circuit but not a gate; the rotation gates are \<open>Rx\<close> and
  \<open>Mcrx\<close>.
\<close>

definition is_gate :: "instr \<Rightarrow> bool" where
  "is_gate g = (g \<noteq> Barrier)"

fun is_rotation :: "instr \<Rightarrow> bool" where
  "is_rotation (Rx t q) = True"
| "is_rotation (Mcrx t cs q) = True"
| "is_rotation g = False"

text \<open>The instructions of one level as the source emits them, barrier included.\<close>

definition level_instrs :: "npfloat list list \<Rightarrow> nat \<Rightarrow> instr list" where
  "level_instrs T m = Barrier # concat (map (\<lambda>i. spec_block T m i) [0..<2 ^ m])"

text \<open>The final swaps: qubit \<open>i\<close> with qubit \<open>n - 1 - i\<close> for \<open>i < n div 2\<close>.\<close>

definition spec_swaps :: "nat \<Rightarrow> instr list" where
  "spec_swaps n = map (\<lambda>i. Swap i (n - 1 - i)) [0..<n div 2]"

subsection \<open>Concrete densities and integrators\<close>



text \<open>The left-endpoint rule, which integrates a constant function exactly.\<close>

definition quad_left :: integrator where
  "quad_left g lo hi = (hi - lo) * g lo"


subsection \<open>The integral and the input class\<close>





subsection \<open>The conditional factors of a path\<close>





subsection \<open>\<^verbatim>\<open>binary_approx\<close> in exact arithmetic\<close>

text \<open>
  The loop of \<^verbatim>\<open>binary_approx\<close> as the specification reads it, with the sum and the
  quotients of the reals: the greedy binary expansion of \<open>n\<close>.
\<close>

fun exact_loop :: "real \<Rightarrow> nat list \<Rightarrow> nat list \<times> real \<Rightarrow> nat list \<times> real" where
  "exact_loop n [] (a, tot) = (a, tot)"
| "exact_loop n (i # is) (a, tot) =
     (let bit = (if n > tot + 1 / 2 ^ i then 1 else 0)
      in exact_loop n is (a @ [bit], tot + real bit / 2 ^ i))"

subsection \<open>The state a circuit prepares\<close>

text \<open>
  The meaning of the instructions is that of the circuit library, which is not part of the
  repository: a basis state gives each qubit a bit, a state gives each basis state an
  amplitude, and an instruction acts by its unitary matrix. \<open>X\<close> flips the bit of its qubit;
  \<open>Rx \<theta>\<close> has the matrix with \<open>cos (\<theta>/2)\<close> on the diagonal and \<open>- \<i> sin (\<theta>/2)\<close> off it; \<open>Mcrx\<close>
  is \<open>Rx\<close> on the target where every control is \<open>1\<close> and the identity elsewhere; \<open>Swap\<close>
  exchanges the bits of two qubits; a barrier does nothing. An angle \<^verbatim>\<open>nan\<close> gives no state.
\<close>

type_synonym basis = "nat \<Rightarrow> bool"

type_synonym state = "basis \<Rightarrow> complex"

definition flip_qubit :: "nat \<Rightarrow> basis \<Rightarrow> basis" where
  "flip_qubit q b = b(q := \<not> b q)"

definition swap_qubits :: "nat \<Rightarrow> nat \<Rightarrow> basis \<Rightarrow> basis" where
  "swap_qubits p q b = b(p := b q, q := b p)"

definition rotate :: "real \<Rightarrow> nat \<Rightarrow> state \<Rightarrow> basis \<Rightarrow> complex" where
  "rotate \<theta> q \<psi> b =
     complex_of_real (cos (\<theta> / 2)) * \<psi> b - \<i> * complex_of_real (sin (\<theta> / 2)) * \<psi> (flip_qubit q b)"

fun apply_instr :: "instr \<Rightarrow> state \<Rightarrow> state option" where
  "apply_instr (Rx None q) \<psi> = None"
| "apply_instr (Rx (Some \<theta>) q) \<psi> = Some (\<lambda>b. rotate \<theta> q \<psi> b)"
| "apply_instr (X q) \<psi> = Some (\<lambda>b. \<psi> (flip_qubit q b))"
| "apply_instr (Mcrx None cs q) \<psi> = None"
| "apply_instr (Mcrx (Some \<theta>) cs q) \<psi> =
     Some (\<lambda>b. if \<forall>c \<in> set cs. b c then rotate \<theta> q \<psi> b else \<psi> b)"
| "apply_instr Barrier \<psi> = Some \<psi>"
| "apply_instr (Swap p q) \<psi> = Some (\<lambda>b. \<psi> (swap_qubits p q b))"

fun run :: "instr list \<Rightarrow> state \<Rightarrow> state option" where
  "run [] \<psi> = Some \<psi>"
| "run (g # gs) \<psi> = (case apply_instr g \<psi> of None \<Rightarrow> None | Some \<psi>' \<Rightarrow> run gs \<psi>')"


definition basis_index :: "nat \<Rightarrow> basis \<Rightarrow> nat" where
  "basis_index n b = horner_sum of_bool 2 (map b [0..<n])"








text \<open>The effect of the first \<open>k\<close> swaps on a basis state, and of all of them.\<close>

definition reverse_part :: "nat \<Rightarrow> nat \<Rightarrow> basis \<Rightarrow> basis" where
  "reverse_part n k b = (\<lambda>q. if q < k \<or> (n - 1 - k < q \<and> q < n) then b (n - 1 - q) else b q)"

definition reverse_qubits :: "nat \<Rightarrow> basis \<Rightarrow> basis" where
  "reverse_qubits n b = (\<lambda>q. if q < n then b (n - 1 - q) else b q)"

section \<open>Rounding to double precision\<close>

subsection \<open>Rounding to the nearest integer\<close>

lemma round_half_even_of_int: "round_half_even (of_int z) = z"
  by (simp add: round_half_even_def)

lemma round_half_even_ge: "of_int N \<le> y \<Longrightarrow> N \<le> round_half_even y"
proof -
  assume "of_int N \<le> y"
  then have "N \<le> \<lfloor>y\<rfloor>" by (simp add: le_floor_iff)
  then show ?thesis by (simp add: round_half_even_def Let_def)
qed

lemma round_half_even_le: "y \<le> of_int N \<Longrightarrow> round_half_even y \<le> N"
proof -
  assume a: "y \<le> of_int N"
  then have fl: "\<lfloor>y\<rfloor> \<le> N" by (simp add: floor_le_iff)
  show ?thesis
  proof (cases "\<lfloor>y\<rfloor> = N")
    case True
    with a have "y = of_int N" using of_int_floor_le[of y] by linarith
    then show ?thesis by (simp add: round_half_even_of_int)
  next
    case False
    with fl have "\<lfloor>y\<rfloor> + 1 \<le> N" by simp
    then show ?thesis using fl by (simp add: round_half_even_def Let_def)
  qed
qed

subsection \<open>The quantum of a normal number\<close>

lemma normal_exponent:
  assumes "2 powi (- 1022) \<le> x"
  shows "2 powi \<lfloor>log 2 x\<rfloor> \<le> x" and "x < 2 powi (\<lfloor>log 2 x\<rfloor> + 1)" and "- 1022 \<le> \<lfloor>log 2 x\<rfloor>"
proof -
  have pos: "0 < x" using assms zero_less_power_int[of "2::real" "- 1022"] by linarith
  have "2 powr real_of_int \<lfloor>log 2 x\<rfloor> \<le> x \<and> x < 2 powr real_of_int (\<lfloor>log 2 x\<rfloor> + 1)"
    by (rule iffD1[OF floor_log_eq_powr_iff refl]) (use pos in simp_all)
  moreover have "2 powr real_of_int E = 2 powi E" for E :: int
    by (rule powr_real_of_int') simp_all
  ultimately show a: "2 powi \<lfloor>log 2 x\<rfloor> \<le> x" and b: "x < 2 powi (\<lfloor>log 2 x\<rfloor> + 1)"
    by metis+
  show "- 1022 \<le> \<lfloor>log 2 x\<rfloor>"
  proof (rule ccontr)
    assume "\<not> - 1022 \<le> \<lfloor>log 2 x\<rfloor>"
    then have "\<lfloor>log 2 x\<rfloor> + 1 \<le> - 1022" by linarith
    then have "(2::real) powi (\<lfloor>log 2 x\<rfloor> + 1) \<le> 2 powi (- 1022)"
      by (rule power_int_increasing) simp
    with b assms show False by linarith
  qed
qed

lemma quantum_subnormal: "\<bar>x\<bar> < 2 powi (- 1022) \<Longrightarrow> quantum x = 2 powi (- 1074)"
  by (simp only: quantum_def if_True)

lemma quantum_normal:
  assumes "2 powi E \<le> \<bar>x\<bar>" and "\<bar>x\<bar> < 2 powi (E + 1)" and "- 1022 \<le> E"
  shows "quantum x = 2 powi (E - 52)"
proof -
  have "(2::real) powi (- 1022) \<le> 2 powi E" using assms(3) by (intro power_int_increasing) simp_all
  with assms(1) have n: "\<not> \<bar>x\<bar> < 2 powi (- 1022)" by linarith
  then have pos: "0 < \<bar>x\<bar>" using zero_less_power_int[of "2::real" "- 1022"] by linarith
  have p: "2 powr real_of_int k = 2 powi k" for k :: int
    by (rule powr_real_of_int') simp_all
  have b: "2 powr real_of_int E \<le> \<bar>x\<bar> \<and> \<bar>x\<bar> < 2 powr real_of_int (E + 1)"
    unfolding p using assms(1,2) by (rule conjI)
  have "\<lfloor>log 2 \<bar>x\<bar>\<rfloor> = E"
  proof (rule iffD2[OF floor_log_eq_powr_iff])
    show "0 < \<bar>x\<bar>" by (rule pos)
    show "(1::real) < 2" by simp
    show "2 powr real_of_int E \<le> \<bar>x\<bar> \<and> \<bar>x\<bar> < 2 powr real_of_int (E + 1)" by (rule b)
  qed
  with n show ?thesis by (simp only: quantum_def if_False)
qed

lemma quantum_pos: "0 < quantum x"
  unfolding quantum_def using zero_less_power_int[of "2::real"] by simp

lemma quantum_ge: "2 powi (- 1074) \<le> quantum x"
proof (cases "\<bar>x\<bar> < 2 powi (- 1022)")
  case True
  then show ?thesis by (simp only: quantum_def if_True order_refl)
next
  case False
  then have "- 1022 \<le> \<lfloor>log 2 \<bar>x\<bar>\<rfloor>" using normal_exponent(3)[of "\<bar>x\<bar>"] by linarith
  then have "- 1074 \<le> \<lfloor>log 2 \<bar>x\<bar>\<rfloor> - 52" by linarith
  then have "(2::real) powi (- 1074) \<le> 2 powi (\<lfloor>log 2 \<bar>x\<bar>\<rfloor> - 52)"
    by (rule power_int_increasing) simp
  with False show ?thesis by (simp only: quantum_def if_False)
qed

subsection \<open>Doubles are rounded to themselves\<close>

lemma round_double_int_multiple:
  assumes "x / quantum x = of_int z"
  shows "round_double x = x"
proof -
  have "quantum x \<noteq> 0" using quantum_pos[of x] by linarith
  then have "of_int z * quantum x = x" using assms by (simp add: field_simps)
  then show ?thesis unfolding round_double_def assms round_half_even_of_int .
qed

lemma pow2_int_multiple:
  assumes "d \<le> e"
  shows "of_int m * 2 powi e / 2 powi d = real_of_int (m * 2 ^ nat (e - d))"
proof -
  have "(2::real) powi e / 2 powi d = 2 powi (e - d)"
    by (rule power_int_diff[symmetric]) simp
  also have "\<dots> = 2 ^ nat (e - d)" using assms by (simp add: power_int_nonneg_exp)
  finally have h: "(2::real) powi e / 2 powi d = 2 ^ nat (e - d)" .
  have "of_int m * 2 powi e / 2 powi d = of_int m * ((2::real) powi e / 2 powi d)" by simp
  also have "\<dots> = real_of_int (m * 2 ^ nat (e - d))" unfolding h by simp
  finally show ?thesis .
qed

lemma round_double_exact:
  assumes m: "0 \<le> m" "m < 2 ^ 53" and e: "- 1074 \<le> e"
  shows "round_double (of_int m * 2 powi e) = of_int m * 2 powi e"
proof -
  define x :: real where "x = of_int m * 2 powi e"
  have x0: "0 \<le> x" unfolding x_def using m(1) zero_less_power_int[of "2::real" e] by simp
  have "\<exists>z. x / quantum x = of_int z"
  proof (cases "\<bar>x\<bar> < 2 powi (- 1022)")
    case True
    then have "quantum x = 2 powi (- 1074)" by (simp only: quantum_def if_True)
    then have "x / quantum x = of_int m * 2 powi e / 2 powi (- 1074)"
      unfolding x_def by (rule arg_cong)
    then show ?thesis using pow2_int_multiple[OF e, of m] by metis
  next
    case False
    then have n: "2 powi (- 1022) \<le> x" using x0 by linarith
    define E where "E = \<lfloor>log 2 x\<rfloor>"
    have q: "quantum x = 2 powi (E - 52)" using False x0 by (simp only: quantum_def if_False E_def abs_of_nonneg)
    have lo: "2 powi E \<le> x" unfolding E_def by (rule normal_exponent(1)[OF n])
    have "real_of_int m < 2 ^ 53" using m(2) by (metis of_int_less_iff of_int_numeral of_int_power)
    then have "x < 2 ^ 53 * 2 powi e" unfolding x_def using zero_less_power_int[of "2::real" e] by simp
    also have "\<dots> = 2 powi (53 + e)" by (simp add: power_int_add)
    finally have up: "x < 2 powi (53 + e)" .
    have "E < 53 + e"
    proof (rule ccontr)
      assume "\<not> E < 53 + e"
      then have "53 + e \<le> E" by linarith
      then have "(2::real) powi (53 + e) \<le> 2 powi E" by (rule power_int_increasing) simp
      with lo up show False by linarith
    qed
    then have "E - 52 \<le> e" by linarith
    moreover have "x / quantum x = of_int m * 2 powi e / 2 powi (E - 52)"
      unfolding q unfolding x_def ..
    ultimately show ?thesis using pow2_int_multiple[of "E - 52" e m] by metis
  qed
  then obtain z where "x / quantum x = of_int z" ..
  then have "round_double x = x" by (rule round_double_int_multiple)
  then show ?thesis unfolding x_def .
qed

lemma round_double_zero: "round_double 0 = 0"
  using round_double_exact[of 0 0] by simp

subsection \<open>The result of rounding is a double\<close>

lemma round_double_range:
  assumes "0 \<le> x"
  shows "\<exists>m e. 0 \<le> m \<and> m < 2 ^ 53 \<and> - 1074 \<le> e \<and> round_double x = of_int m * 2 powi e"
proof (cases "\<bar>x\<bar> < 2 powi (- 1022)")
  case True
  then have q: "quantum x = 2 powi (- 1074)" by (simp only: quantum_def if_True)
  define M where "M = round_half_even (x / quantum x)"
  have "x < 2 powi (- 1022)" using True by linarith
  then have "x / 2 powi (- 1074) < 2 powi (- 1022) / 2 powi (- 1074)"
    using zero_less_power_int[of "2::real" "- 1074"] by (simp add: divide_strict_right_mono)
  also have "(2::real) powi (- 1022) / 2 powi (- 1074) = 2 powi (- 1022 - (- 1074))"
    by (rule power_int_diff[symmetric]) simp
  also have "\<dots> = of_int (2 ^ 52)" by (simp add: power_int_nonneg_exp)
  finally have "x / quantum x \<le> of_int (2 ^ 52)" unfolding q by linarith
  then have "M \<le> 2 ^ 52" unfolding M_def by (rule round_half_even_le)
  then have up: "M < 2 ^ 53" by simp
  have "of_int 0 \<le> x / quantum x" using assms quantum_pos[of x] by simp
  then have lo: "0 \<le> M" unfolding M_def by (rule round_half_even_ge)
  have "round_double x = of_int M * 2 powi (- 1074)" unfolding round_double_def M_def q ..
  with lo up show ?thesis by (intro exI[of _ M] exI[of _ "- 1074"]) simp
next
  case False
  then have n: "2 powi (- 1022) \<le> x" using assms by linarith
  define E where "E = \<lfloor>log 2 x\<rfloor>"
  have q: "quantum x = 2 powi (E - 52)" using False assms by (simp only: quantum_def if_False E_def abs_of_nonneg)
  have lo: "2 powi E \<le> x" unfolding E_def by (rule normal_exponent(1)[OF n])
  have up: "x < 2 powi (E + 1)" unfolding E_def by (rule normal_exponent(2)[OF n])
  have E: "- 1022 \<le> E" unfolding E_def by (rule normal_exponent(3)[OF n])
  define M where "M = round_half_even (x / quantum x)"
  have qpos: "0 < (2::real) powi (E - 52)" by (rule zero_less_power_int) simp
  have "2 powi E / 2 powi (E - 52) \<le> x / 2 powi (E - 52)"
    using lo qpos by (simp add: divide_right_mono)
  moreover have "(2::real) powi E / 2 powi (E - 52) = 2 powi (E - (E - 52))"
    by (rule power_int_diff[symmetric]) simp
  moreover have "(2::real) powi (E - (E - 52)) = of_int (2 ^ 52)" by (simp add: power_int_nonneg_exp)
  ultimately have "of_int (2 ^ 52) \<le> x / quantum x" unfolding q by linarith
  then have Mlo: "2 ^ 52 \<le> M" unfolding M_def by (rule round_half_even_ge)
  have "x / 2 powi (E - 52) < 2 powi (E + 1) / 2 powi (E - 52)"
    using up qpos by (simp add: divide_strict_right_mono)
  moreover have "(2::real) powi (E + 1) / 2 powi (E - 52) = 2 powi (E + 1 - (E - 52))"
    by (rule power_int_diff[symmetric]) simp
  moreover have "(2::real) powi (E + 1 - (E - 52)) = of_int (2 ^ 53)" by (simp add: power_int_nonneg_exp)
  ultimately have "x / quantum x \<le> of_int (2 ^ 53)" unfolding q by linarith
  then have Mup: "M \<le> 2 ^ 53" unfolding M_def by (rule round_half_even_le)
  have r: "round_double x = of_int M * 2 powi (E - 52)" unfolding round_double_def M_def q ..
  show ?thesis
  proof (cases "M = 2 ^ 53")
    case True
    have "round_double x = 2 ^ 53 * 2 powi (E - 52)" unfolding r True by simp
    also have "\<dots> = 2 powi 53 * 2 powi (E - 52)" by (simp add: power_int_nonneg_exp)
    also have "\<dots> = 2 powi (53 + (E - 52))" by (rule power_int_add[symmetric]) simp
    also have "\<dots> = of_int 1 * 2 powi (E + 1)" by (simp add: add.commute)
    finally show ?thesis using E by (intro exI[of _ 1] exI[of _ "E + 1"]) simp
  next
    case False
    with Mup have "M < 2 ^ 53" by linarith
    moreover have "0 \<le> M" using Mlo by (rule order_trans[rotated]) simp
    moreover have "- 1074 \<le> E - 52" using E by linarith
    ultimately show ?thesis using r by (intro exI[of _ M] exI[of _ "E - 52"]) simp
  qed
qed

lemma round_double_idem: "0 \<le> x \<Longrightarrow> round_double (round_double x) = round_double x"
  using round_double_range[of x] round_double_exact by metis

lemma round_double_nonneg: "0 \<le> x \<Longrightarrow> 0 \<le> round_double x"
proof -
  assume "0 \<le> x"
  then obtain m e where "0 \<le> m" "round_double x = of_int m * 2 powi e"
    using round_double_range by blast
  then show ?thesis using zero_less_power_int[of "2::real" e] by simp
qed

lemma round_double_ge_min:
  assumes "2 powi (- 1074) \<le> x"
  shows "2 powi (- 1074) \<le> round_double x"
proof -
  have mpos: "0 < (2::real) powi (- 1074)" by (rule zero_less_power_int) simp
  have "of_int 1 \<le> x / quantum x"
  proof (cases "\<bar>x\<bar> < 2 powi (- 1022)")
    case True
    then have q: "quantum x = 2 powi (- 1074)" by (simp only: quantum_def if_True)
    show ?thesis unfolding q using assms mpos by (simp add: le_divide_eq)
  next
    case False
    then have n: "2 powi (- 1022) \<le> x" using assms mpos by linarith
    then have x0: "0 \<le> x" using zero_less_power_int[of "2::real" "- 1022"] by linarith
    define E where "E = \<lfloor>log 2 x\<rfloor>"
    have q: "quantum x = 2 powi (E - 52)" using False x0 by (simp only: quantum_def if_False E_def abs_of_nonneg)
    have lo: "2 powi E \<le> x" unfolding E_def by (rule normal_exponent(1)[OF n])
    have "(2::real) powi (E - 52) \<le> 2 powi E" by (rule power_int_increasing) simp_all
    with lo have "2 powi (E - 52) \<le> x" by linarith
    then show ?thesis unfolding q using zero_less_power_int[of "2::real" "E - 52"] by (simp add: le_divide_eq)
  qed
  then have "1 \<le> round_half_even (x / quantum x)" by (rule round_half_even_ge)
  then have "1 \<le> real_of_int (round_half_even (x / quantum x))" by linarith
  then have "1 * quantum x \<le> real_of_int (round_half_even (x / quantum x)) * quantum x"
    using quantum_pos[of x] by (intro mult_right_mono) simp_all
  then show ?thesis unfolding round_double_def using quantum_ge[of x] by linarith
qed

lemma dyadic_double:
  assumes "c < 2 ^ 53" and "i \<le> 1074"
  shows "round_double (real c / 2 ^ i) = real c / 2 ^ i"
proof -
  have "int c < 2 ^ 53" using assms(1) by (metis of_nat_less_iff of_nat_numeral of_nat_power)
  then have "round_double (of_int (int c) * 2 powi (- int i)) = of_int (int c) * 2 powi (- int i)"
    using assms(2) by (intro round_double_exact) simp_all
  moreover have "of_int (int c) * 2 powi (- int i) = real c / 2 ^ i"
    by (simp add: power_int_minus field_simps)
  ultimately show ?thesis by simp
qed

subsection \<open>Rounding near the ends of the range\<close>


lemma round_double_underflow:
  assumes "0 \<le> x" and "x \<le> 2 powi (- 1075)"
  shows "round_double x = 0"
proof -
  have "(2::real) powi (- 1075) < 2 powi (- 1022)" by (intro power_int_strict_increasing) simp_all
  with assms have x2: "\<bar>x\<bar> < 2 powi (- 1022)" by linarith
  have q: "quantum x = 2 powi (- 1074)" using x2 by (simp only: quantum_def if_True)
  define y where "y = x / quantum x"
  have y0: "0 \<le> y" unfolding y_def using assms(1) quantum_pos[of x] by simp
  have "x / 2 powi (- 1074) \<le> 2 powi (- 1075) / 2 powi (- 1074)"
    using assms(2) zero_less_power_int[of "2::real" "- 1074"] by (simp add: divide_right_mono)
  moreover have "(2::real) powi (- 1075) / 2 powi (- 1074) = 2 powi (- 1075 - (- 1074))"
    by (rule power_int_diff[symmetric]) simp
  moreover have "(2::real) powi (- 1075 - (- 1074)) = 1 / 2" by simp
  ultimately have y1: "y \<le> 1 / 2" unfolding y_def q by linarith
  have fl: "\<lfloor>y\<rfloor> = 0" using y0 y1 by (simp add: floor_eq_iff)
  have "round_half_even y = 0" using y1 by (simp add: round_half_even_def fl)
  then show ?thesis unfolding round_double_def y_def[symmetric] by simp
qed

subsection \<open>Underflow of the exponential\<close>

lemma exp_half_ge: "13 / 8 \<le> exp (1 / 2 :: real)"
  using exp_lower_Taylor_quadratic[of "1 / 2 :: real"] by (simp add: power2_eq_square)

lemma exp_800_ge: "(2::real) ^ 1075 \<le> exp 800"
proof -
  have "(2::real) ^ 7 \<le> (13 / 8) ^ 10" by (simp add: power_divide)
  then have "((2::real) ^ 7) ^ 160 \<le> ((13 / 8) ^ 10) ^ 160" by (intro power_mono) simp_all
  then have a: "(2::real) ^ 1120 \<le> (13 / 8) ^ 1600" by (simp only: power_mult [symmetric]) simp
  have "(13 / 8 :: real) ^ 1600 \<le> exp (1 / 2) ^ 1600" using exp_half_ge by (intro power_mono) simp_all
  also have "\<dots> = exp (1600 * (1 / 2))" by (simp only: exp_of_nat_mult[symmetric]) simp
  finally have b: "(13 / 8 :: real) ^ 1600 \<le> exp 800" by simp
  have "(2::real) ^ 1075 \<le> 2 ^ 1120" by (intro power_increasing) simp_all
  with a b show ?thesis by linarith
qed

lemma np_exp_underflow:
  assumes "x \<le> - 800"
  shows "np_exp x = 0"
proof -
  have "exp x \<le> exp (- 800)" using assms by simp
  also have "\<dots> = 1 / exp 800" by (simp add: exp_minus field_simps)
  also have "\<dots> \<le> 1 / 2 ^ 1075" using exp_800_ge by (intro divide_left_mono) simp_all
  also have "\<dots> = 2 powi (- 1075)" by (simp add: power_int_minus field_simps)
  finally show ?thesis unfolding np_exp_def by (simp only: if_True)
qed


section \<open>The tables of \<^verbatim>\<open>GRA\<close>\<close>

subsection \<open>The loops in closed form\<close>

lemma GRA_node_eq:
  "GRA_node quad distr a R m i =
     (if den_mass quad distr a R m i = 0 then Inl ZeroDivisionError
      else Inr (num_mass quad distr a R m i / den_mass quad distr a R m i,
                np_arccos (np_sqrt (num_mass quad distr a R m i / den_mass quad distr a R m i)),
                den_mass quad distr a R m i))"
  by (simp add: GRA_node_def den_mass_def num_mass_def Let_def)

lemma GRA_level_eq:
  "GRA_level quad distr a R m is (Fm, Tm, Pm) =
     (if \<forall>i \<in> set is. den_mass quad distr a R m i \<noteq> 0
      then Inr (Fm @ map (\<lambda>i. num_mass quad distr a R m i / den_mass quad distr a R m i) is,
                Tm @ map (\<lambda>i. np_arccos (np_sqrt (num_mass quad distr a R m i / den_mass quad distr a R m i))) is,
                Pm @ map (\<lambda>i. den_mass quad distr a R m i) is)
      else Inl ZeroDivisionError)"
  by (induction "is" arbitrary: Fm Tm Pm) (simp_all add: GRA_node_eq)

lemma GRA_levels_eq:
  "GRA_levels quad distr a R ms (F, T, P) =
     (if \<forall>m \<in> set ms. \<forall>i < 2 ^ m. den_mass quad distr a R m i \<noteq> 0
      then Inr (F @ map (F_row quad distr a R) ms, T @ map (T_row quad distr a R) ms,
                P @ map (P_row quad distr a R) ms)
      else Inl ZeroDivisionError)"
proof (induction ms arbitrary: F T P)
  case Nil
  show ?case by simp
next
  case (Cons m ms)
  show ?case
  proof (cases "\<forall>i < 2 ^ m. den_mass quad distr a R m i \<noteq> 0")
    case True
    then have "GRA_level quad distr a R m [0..<2 ^ m] ([], [], []) =
        Inr (F_row quad distr a R m, T_row quad distr a R m, P_row quad distr a R m)"
      by (simp add: GRA_level_eq F_row_def T_row_def P_row_def)
    then show ?thesis using True by (simp add: Cons.IH)
  next
    case False
    then have "GRA_level quad distr a R m [0..<2 ^ m] ([], [], []) = Inl ZeroDivisionError"
      by (auto simp add: GRA_level_eq)
    then show ?thesis using False by auto
  qed
qed

lemma GRA_tables_eq:
  "GRA_tables quad n distr a b =
     (if masses_nonzero quad n distr a b
      then Inr (map (F_row quad distr a (b - a)) [0..<n + 1],
                map (T_row quad distr a (b - a)) [0..<n + 1],
                map (P_row quad distr a (b - a)) [0..<n + 1])
      else Inl ZeroDivisionError)"
proof -
  have "(\<forall>m \<in> set [0..<n + 1]. \<forall>i < 2 ^ m. den_mass quad distr a (b - a) m i \<noteq> 0)
      \<longleftrightarrow> masses_nonzero quad n distr a b"
    by (auto simp add: masses_nonzero_def less_Suc_eq_le)
  then show ?thesis
    unfolding GRA_tables_def Let_def GRA_levels_eq by simp
qed

lemma tables_entries:
  assumes "GRA_tables quad n distr a b = Inr (F, T, P)"
  shows "masses_nonzero quad n distr a b"
    and "length F = n + 1" and "length T = n + 1" and "length P = n + 1"
    and "m \<le> n \<Longrightarrow> length (F ! m) = 2 ^ m \<and> length (T ! m) = 2 ^ m \<and> length (P ! m) = 2 ^ m"
    and "m \<le> n \<Longrightarrow> i < 2 ^ m \<Longrightarrow> P ! m ! i = den_mass quad distr a (b - a) m i"
    and "m \<le> n \<Longrightarrow> i < 2 ^ m \<Longrightarrow>
           F ! m ! i = num_mass quad distr a (b - a) m i / den_mass quad distr a (b - a) m i"
    and "m \<le> n \<Longrightarrow> i < 2 ^ m \<Longrightarrow> T ! m ! i = np_arccos (np_sqrt (F ! m ! i))"
proof -
  from assms show nz: "masses_nonzero quad n distr a b"
    by (simp add: GRA_tables_eq split: if_splits)
  with assms have F: "F = map (F_row quad distr a (b - a)) [0..<n + 1]"
    and T: "T = map (T_row quad distr a (b - a)) [0..<n + 1]"
    and P: "P = map (P_row quad distr a (b - a)) [0..<n + 1]"
    by (simp_all add: GRA_tables_eq)
  show "length F = n + 1" "length T = n + 1" "length P = n + 1"
    by (simp_all add: F T P)
  {
    assume m: "m \<le> n"
    then have m': "m < n + 1" by simp
    have Fm: "F ! m = F_row quad distr a (b - a) m" unfolding F using m' by (simp del: upt_Suc)
    have Tm: "T ! m = T_row quad distr a (b - a) m" unfolding T using m' by (simp del: upt_Suc)
    have Pm: "P ! m = P_row quad distr a (b - a) m" unfolding P using m' by (simp del: upt_Suc)
    show "length (F ! m) = 2 ^ m \<and> length (T ! m) = 2 ^ m \<and> length (P ! m) = 2 ^ m"
      by (simp add: Fm Tm Pm F_row_def T_row_def P_row_def)
    assume i: "i < 2 ^ m"
    show "P ! m ! i = den_mass quad distr a (b - a) m i"
      using i by (simp add: Pm P_row_def)
    show Fmi: "F ! m ! i = num_mass quad distr a (b - a) m i / den_mass quad distr a (b - a) m i"
      using i by (simp add: Fm F_row_def)
    show "T ! m ! i = np_arccos (np_sqrt (F ! m ! i))"
      unfolding Fmi using i by (simp add: Tm T_row_def)
  }
qed



section \<open>The circuit of \<^verbatim>\<open>GRA\<close>\<close>

subsection \<open>The loops in closed form\<close>

lemma x_loop_eq:
  "x_loop m i js qc = qc @ map (\<lambda>j. X (m - j - 1)) (filter (\<lambda>j. \<not> bit i j) js)"
  by (induction js arbitrary: qc) (simp_all add: and_exp_eq_0_iff_not_bit)

lemma x_loop_spec: "x_loop m i [0..<m] qc = qc @ spec_x_gates m i"
  by (simp add: x_loop_eq spec_x_gates_def)

lemma pattern_loop_eq:
  assumes "m < length T" and "\<forall>i \<in> set is. i < length (T ! m)"
  shows "pattern_loop T m [0..<m] is qc = Inr (qc @ concat (map (\<lambda>i. spec_block T m i) is))"
  using assms(2)
proof (induction "is" arbitrary: qc)
  case Nil
  show ?case by simp
next
  case (Cons i "is")
  then have "index2 T m i = Inr (T ! m ! i)"
    using assms(1) by (simp add: index2_def)
  moreover have "\<forall>i \<in> set is. i < length (T ! m)" using Cons.prems by simp
  ultimately show ?case
    by (simp add: Cons.IH x_loop_spec spec_block_def Let_def)
qed

lemma level_loop_eq:
  assumes "\<forall>m \<in> set ms. m < length T \<and> length (T ! m) = 2 ^ m"
  shows "level_loop T ms qc = Inr (qc @ concat (map (level_instrs T) ms))"
  using assms
proof (induction ms arbitrary: qc)
  case Nil
  show ?case by simp
next
  case (Cons m ms)
  then have "m < length T" and "\<forall>i \<in> set [0..<2 ^ m]. i < length (T ! m)" by simp_all
  then have "pattern_loop T m [0..<m] [0..<2 ^ m] (qc @ [Barrier]) =
      Inr ((qc @ [Barrier]) @ concat (map (\<lambda>i. spec_block T m i) [0..<2 ^ m]))"
    by (rule pattern_loop_eq)
  moreover have "\<forall>m \<in> set ms. m < length T \<and> length (T ! m) = 2 ^ m" using Cons.prems by simp
  ultimately show ?case
    by (simp add: Cons.IH level_instrs_def)
qed

lemma swap_loop_eq: "swap_loop n is qc = qc @ map (\<lambda>i. Swap i (n - i - 1)) is"
  by (induction "is" arbitrary: qc) simp_all

lemma GRA_swaps_eq: "GRA_swaps n qc = qc @ spec_swaps n"
proof -
  have "n mod 2 \<noteq> 0 \<Longrightarrow> (n - 1) div 2 = n div 2" by presburger
  moreover have "(\<lambda>i. Swap i (n - i - 1)) = (\<lambda>i. Swap i (n - 1 - i))"
    by (rule ext) simp
  ultimately show ?thesis
    by (simp add: GRA_swaps_def swaps_even_branch_def swaps_odd_branch_def swap_loop_eq spec_swaps_def)
qed

lemma GRA_rotations_eq:
  assumes "1 \<le> n" and "n \<le> length T" and "\<forall>m < n. length (T ! m) = 2 ^ m"
  shows "GRA_rotations n T = Inr (Rx (np_double (T ! 0 ! 0)) 0 # concat (map (level_instrs T) [1..<n]))"
proof -
  from assms have "0 < length T" and "length (T ! 0) = 2 ^ 0" by auto
  then have "index2 T 0 0 = Inr (T ! 0 ! 0)"
    by (simp add: index2_def)
  moreover have "\<forall>m \<in> set [1..<n]. m < length T \<and> length (T ! m) = 2 ^ m"
    using assms by simp
  then have "level_loop T [1..<n] [Rx (np_double (T ! 0 ! 0)) 0] =
      Inr ([Rx (np_double (T ! 0 ! 0)) 0] @ concat (map (level_instrs T) [1..<n]))"
    by (rule level_loop_eq)
  ultimately show ?thesis using assms(1) by (simp add: GRA_rotations_def)
qed

lemma GRA_eq:
  assumes "1 \<le> n" and "GRA_tables quad n distr a b = Inr (F, T, P)"
  shows "GRA_rotations n T = Inr (Rx (np_double (T ! 0 ! 0)) 0 # concat (map (level_instrs T) [1..<n]))"
    and "GRA quad n distr a b =
           Inr ((Rx (np_double (T ! 0 ! 0)) 0 # concat (map (level_instrs T) [1..<n])) @ spec_swaps n, P)"
proof -
  have "n \<le> length T" using tables_entries(3) [OF assms(2)] by simp
  moreover have "\<forall>m < n. length (T ! m) = 2 ^ m"
    using tables_entries(5) [OF assms(2)] by simp
  ultimately show r: "GRA_rotations n T =
      Inr (Rx (np_double (T ! 0 ! 0)) 0 # concat (map (level_instrs T) [1..<n]))"
    using assms(1) by (intro GRA_rotations_eq)
  then show "GRA quad n distr a b =
      Inr ((Rx (np_double (T ! 0 ! 0)) 0 # concat (map (level_instrs T) [1..<n])) @ spec_swaps n, P)"
    by (simp add: GRA_def assms(2) GRA_circuit_def GRA_swaps_eq)
qed


subsection \<open>Gates and rotations of the emitted instructions\<close>

lemma gates_spec_x [simp]: "filter is_gate (spec_x_gates m i) = spec_x_gates m i"
  by (simp add: spec_x_gates_def is_gate_def filter_map o_def)

lemma gates_spec_block [simp]: "filter is_gate (spec_block T m i) = spec_block T m i"
  by (simp add: spec_block_def is_gate_def)

lemma gates_level: "filter is_gate (level_instrs T m) = concat (map (\<lambda>i. spec_block T m i) [0..<2 ^ m])"
  by (simp add: level_instrs_def is_gate_def filter_concat o_def)

lemma gates_levels:
  "filter is_gate (concat (map (level_instrs T) ms)) =
     concat (map (\<lambda>m. concat (map (\<lambda>i. spec_block T m i) [0..<2 ^ m])) ms)"
  by (induction ms) (simp_all add: gates_level)

lemma rot_spec_x [simp]: "filter is_rotation (spec_x_gates m i) = []"
  by (simp add: spec_x_gates_def filter_map o_def)

lemma rot_spec_block: "length (filter is_rotation (spec_block T m i)) = 1"
  by (simp add: spec_block_def)

lemma rot_level: "length (filter is_rotation (level_instrs T m)) = 2 ^ m"
  by (simp add: level_instrs_def filter_concat length_concat o_def rot_spec_block sum_list_triv
      del: upt_Suc)

lemma rot_swaps [simp]: "filter is_rotation (spec_swaps n) = []"
  by (simp add: spec_swaps_def filter_map o_def)

lemma sum_pow2: "(\<Sum>m \<leftarrow> [1..<n]. (2::nat) ^ m) = 2 ^ n - 2" if "1 \<le> n"
  using that
proof (induction n rule: nat_induct_at_least)
  case base show ?case by simp
next
  case (Suc n)
  have "(2::nat) ^ n \<ge> 2" using Suc.hyps by (metis power_increasing one_le_numeral power_one_right)
  with Suc show ?case by simp
qed

lemma rot_levels: "1 \<le> n \<Longrightarrow> length (filter is_rotation (concat (map (level_instrs T) [1..<n]))) = 2 ^ n - 2"
  using sum_pow2 [of n] by (simp add: filter_concat length_concat o_def rot_level del: upt_Suc)

section \<open>The angles and the integrals of the examples\<close>

subsection \<open>Where the angle is a number\<close>





subsection \<open>The constant density\<close>

text \<open>The tables of the constant density \<open>1\<close> on \<open>[0, 1]\<close> for two qubits.\<close>

lemma const_tables:
  "GRA_tables quad_left 2 (\<lambda>x. 1) 0 1 =
      Inr ([[1 / 2], [1 / 2, 1 / 2], [1 / 2, 1 / 2, 1 / 2, 1 / 2]],
           [[np_arccos (np_sqrt (1 / 2))],
            [np_arccos (np_sqrt (1 / 2)), np_arccos (np_sqrt (1 / 2))],
            [np_arccos (np_sqrt (1 / 2)), np_arccos (np_sqrt (1 / 2)),
             np_arccos (np_sqrt (1 / 2)), np_arccos (np_sqrt (1 / 2))]],
           [[1], [1 / 2, 1 / 2], [1 / 4, 1 / 4, 1 / 4, 1 / 4]])"
  by (simp add: GRA_tables_def GRA_node_def quad_left_def upt_conv_Cons Let_def)

subsection \<open>The uniform density on \<open>[0, 1]\<close> over the range \<open>[0, 2]\<close>\<close>




subsection \<open>The density \<open>2 x\<close> on \<open>[0, 1]\<close> under the midpoint rule\<close>






subsection \<open>The density of the notebook on \<open>[0, 80]\<close>\<close>







section \<open>The product of the conditional factors\<close>




subsection \<open>The product along a path, level by level\<close>











section \<open>The state prepared by the circuit\<close>

subsection \<open>One block of a control pattern\<close>

lemma run_append:
  "run (xs @ ys) \<psi> = (case run xs \<psi> of None \<Rightarrow> None | Some \<psi>' \<Rightarrow> run ys \<psi>')"
  by (induction xs arbitrary: \<psi>) (auto split: option.splits)










subsection \<open>Patterns and prefixes\<close>






subsection \<open>The invariant through a level and through the levels\<close>












subsection \<open>The swaps reverse the qubits\<close>

lemma reverse_part_step:
  assumes "Suc k \<le> n div 2"
  shows "reverse_part n k (swap_qubits k (n - 1 - k) b) = reverse_part n (Suc k) b"
proof (rule ext)
  fix q
  from assms have kn: "2 * k + 2 \<le> n" by simp
  consider "q < k" | "q = k" | "k < q \<and> q < n - 1 - k" | "q = n - 1 - k" | "n - 1 - k < q \<and> q < n" | "n \<le> q"
    by linarith
  then show "reverse_part n k (swap_qubits k (n - 1 - k) b) q = reverse_part n (Suc k) b q"
  proof cases
    case 1
    then have "n - 1 - q \<noteq> k" "n - 1 - q \<noteq> n - 1 - k" using kn by linarith+
    then show ?thesis using 1 by (simp add: reverse_part_def swap_qubits_def)
  next
    case 2
    then have "\<not> (n - 1 - k < q)" using kn by linarith
    then show ?thesis using 2 kn by (simp add: reverse_part_def swap_qubits_def)
  next
    case 3
    then have "q \<noteq> k" "q \<noteq> n - 1 - k" "\<not> q < k" "\<not> n - 1 - k < q" "\<not> q < Suc k" "\<not> n - 1 - Suc k < q"
      using kn by linarith+
    then show ?thesis by (simp add: reverse_part_def swap_qubits_def)
  next
    case 4
    then have "\<not> q < k" "\<not> n - 1 - k < q" "\<not> q < Suc k" "n - 1 - Suc k < q" "q < n" "n - 1 - q = k" "q \<noteq> k"
      using kn by linarith+
    then show ?thesis using 4 by (simp add: reverse_part_def swap_qubits_def)
  next
    case 5
    then have "n - 1 - q \<noteq> k" "n - 1 - q \<noteq> n - 1 - k" "n - 1 - Suc k < q" using kn by linarith+
    then show ?thesis using 5 by (simp add: reverse_part_def swap_qubits_def)
  next
    case 6
    then have "\<not> q < k" "\<not> q < Suc k" "\<not> q < n" "q \<noteq> k" "q \<noteq> n - 1 - k" using kn by linarith+
    then show ?thesis by (simp add: reverse_part_def swap_qubits_def)
  qed
qed

lemma run_swaps_part:
  "k \<le> n div 2 \<Longrightarrow>
   run (map (\<lambda>i. Swap i (n - 1 - i)) [0..<k]) \<psi> = Some (\<lambda>b. \<psi> (reverse_part n k b))"
proof (induction k)
  case 0
  have "reverse_part n 0 b = b" for b
  proof (rule ext)
    fix q
    have "\<not> (n - 1 - 0 < q \<and> q < n)" by linarith
    then show "reverse_part n 0 b q = b q" unfolding reverse_part_def by auto
  qed
  then show ?case by simp
next
  case (Suc k)
  then have "run (map (\<lambda>i. Swap i (n - 1 - i)) [0..<k]) \<psi> = Some (\<lambda>b. \<psi> (reverse_part n k b))"
    by simp
  then have "run (map (\<lambda>i. Swap i (n - 1 - i)) [0..<Suc k]) \<psi> =
      Some (\<lambda>b. \<psi> (reverse_part n k (swap_qubits k (n - 1 - k) b)))"
    by (simp add: run_append)
  then show ?case by (simp only: reverse_part_step [OF Suc.prems])
qed

lemma reverse_part_all: "reverse_part n (n div 2) b = reverse_qubits n b"
proof (rule ext)
  fix q
  show "reverse_part n (n div 2) b q = reverse_qubits n b q"
  proof (cases "q < n div 2 \<or> (n - 1 - n div 2 < q \<and> q < n)")
    case True
    then have "q < n" by linarith
    with True show ?thesis by (simp add: reverse_part_def reverse_qubits_def)
  next
    case False
    show ?thesis
    proof (cases "q < n")
      case True
      with False have "n - 1 - q = q" by linarith
      with False True show ?thesis by (simp add: reverse_part_def reverse_qubits_def)
    next
      case nq: False
      with False show ?thesis by (simp add: reverse_part_def reverse_qubits_def)
    qed
  qed
qed

lemma run_spec_swaps: "run (spec_swaps n) \<psi> = Some (\<lambda>b. \<psi> (reverse_qubits n b))"
  unfolding spec_swaps_def using run_swaps_part [of "n div 2" n \<psi>]
  by (simp only: reverse_part_all order_refl)



lemma basis_index_less: "basis_index n b < 2 ^ n"
  using horner_sum_of_bool_2_less [of "map b [0..<n]"] by (simp add: basis_index_def)


section \<open>Claims about the tables\<close>







section \<open>Claim about the domains of the partial operations\<close>






section \<open>Claims about the circuit\<close>

text \<open>
  C3. For \<open>n \<ge> 1\<close>, whenever the tables are computed, \<^verbatim>\<open>GRA\<close> returns a circuit, and the gates
  it emits before the final swaps are exactly: the rotation \<open>Rx\<close> by \<open>2 * T[0][0]\<close> on qubit
  \<open>0\<close>; then for each level \<open>m = 1, \<dots>, n - 1\<close> and each pattern \<open>i = 0, \<dots>, 2 ^ m - 1\<close>, in this
  order, the \<open>X\<close> gates on the qubits \<open>m - j - 1\<close> for the positions \<open>j < m\<close> where bit \<open>j\<close> of
  \<open>i\<close> is \<open>0\<close>, the multi-controlled rotation by \<open>2 * T[m][i]\<close> with controls \<open>0, \<dots>, m - 1\<close> and
  target \<open>m\<close>, and the same \<open>X\<close> gates again. The circuit holds \<open>2 ^ n - 1\<close> rotation gates.
  Between the levels the circuit holds nothing else but the barrier that opens each level,
  which is an instruction and not a gate.
\<close>

theorem GRA_gate_sequence:
  assumes "1 \<le> n" and "GRA_tables quad n distr a b = Inr (F, T, P)"
  shows "\<exists>rot. GRA_rotations n T = Inr rot \<and>
           GRA quad n distr a b = Inr (GRA_swaps n rot, P) \<and>
           rot = Rx (np_double (T ! 0 ! 0)) 0 #
                 concat (map (\<lambda>m. Barrier # concat (map (\<lambda>i. spec_block T m i) [0..<2 ^ m])) [1..<n]) \<and>
           filter is_gate rot = spec_gate_sequence n T \<and>
           length (filter is_rotation rot) = 2 ^ n - 1 \<and>
           length (filter is_rotation (GRA_swaps n rot)) = 2 ^ n - 1"
proof -
  let ?rot = "Rx (np_double (T ! 0 ! 0)) 0 # concat (map (level_instrs T) [1..<n])"
  have r: "GRA_rotations n T = Inr ?rot" using assms by (rule GRA_eq(1))
  have g: "GRA quad n distr a b = Inr (GRA_swaps n ?rot, P)"
    using GRA_eq(2) [OF assms] by (simp add: GRA_swaps_eq)
  have s: "filter is_gate ?rot = spec_gate_sequence n T"
    by (simp add: spec_gate_sequence_def gates_levels is_gate_def)
  have "(2::nat) ^ n \<ge> 2" using assms(1) by (metis power_increasing one_le_numeral power_one_right)
  then have c: "length (filter is_rotation ?rot) = 2 ^ n - 1"
    using rot_levels [OF assms(1), of T] by simp
  then have "length (filter is_rotation (GRA_swaps n ?rot)) = 2 ^ n - 1"
    by (simp add: GRA_swaps_eq)
  moreover have "?rot = Rx (np_double (T ! 0 ! 0)) 0 #
      concat (map (\<lambda>m. Barrier # concat (map (\<lambda>i. spec_block T m i) [0..<2 ^ m])) [1..<n])"
    by (simp add: level_instrs_def [abs_def])
  ultimately show ?thesis using r g s c by blast
qed

theorem GRA_gate_sequence_witness:
  "\<exists>rot. GRA quad_left 2 (\<lambda>x. 1) 0 1 =
       Inr (GRA_swaps 2 rot, [[1], [1 / 2, 1 / 2], [1 / 4, 1 / 4, 1 / 4, 1 / 4]]) \<and>
     filter is_gate rot =
       [Rx (np_double (np_arccos (np_sqrt (1 / 2)))) 0,
        X 0, Mcrx (np_double (np_arccos (np_sqrt (1 / 2)))) [0] 1, X 0,
        Mcrx (np_double (np_arccos (np_sqrt (1 / 2)))) [0] 1] \<and>
     length (filter is_rotation rot) = 3"
proof -
  have "spec_gate_sequence 2 [[np_arccos (np_sqrt (1 / 2))],
            [np_arccos (np_sqrt (1 / 2)), np_arccos (np_sqrt (1 / 2))],
            [np_arccos (np_sqrt (1 / 2)), np_arccos (np_sqrt (1 / 2)),
             np_arccos (np_sqrt (1 / 2)), np_arccos (np_sqrt (1 / 2))]] =
       [Rx (np_double (np_arccos (np_sqrt (1 / 2)))) 0,
        X 0, Mcrx (np_double (np_arccos (np_sqrt (1 / 2)))) [0] 1, X 0,
        Mcrx (np_double (np_arccos (np_sqrt (1 / 2)))) [0] 1]"
    by (simp add: spec_gate_sequence_def spec_block_def spec_x_gates_def upt_conv_Cons bit_0)
  moreover have "(1::nat) \<le> 2" by simp
  note GRA_gate_sequence [OF this const_tables]
  ultimately show ?thesis by auto
qed

text \<open>
  C9. For \<open>n \<ge> 1\<close>, whenever the tables are computed, the circuit \<^verbatim>\<open>GRA\<close> returns ends with
  exactly \<open>n div 2\<close> swaps, of qubit \<open>i\<close> with qubit \<open>n - 1 - i\<close> for \<open>i = 0, \<dots>, n div 2 - 1\<close>,
  which together reverse the order of the qubits.
  For odd \<open>n\<close> the loop of the odd branch is the loop of the even branch, so the parity test
  can be replaced by the even branch.
\<close>

theorem GRA_final_swaps:
  assumes "1 \<le> n" and "GRA_tables quad n distr a b = Inr (F, T, P)"
  shows "\<exists>rot. GRA_rotations n T = Inr rot \<and>
           GRA quad n distr a b = Inr (rot @ map (\<lambda>i. Swap i (n - 1 - i)) [0..<n div 2], P) \<and>
           length (map (\<lambda>i. Swap i (n - 1 - i)) [0..<n div 2]) = n div 2 \<and>
           (\<forall>\<psi>. run (map (\<lambda>i. Swap i (n - 1 - i)) [0..<n div 2]) \<psi> =
                  Some (\<lambda>b. \<psi> (reverse_qubits n b))) \<and>
           GRA_swaps n rot = swaps_even_branch n rot \<and>
           (n mod 2 \<noteq> 0 \<longrightarrow> (\<forall>qc. swaps_odd_branch n qc = swaps_even_branch n qc))"
proof -
  let ?rot = "Rx (np_double (T ! 0 ! 0)) 0 # concat (map (level_instrs T) [1..<n])"
  have r: "GRA_rotations n T = Inr ?rot" using assms by (rule GRA_eq(1))
  have g: "GRA quad n distr a b = Inr (?rot @ map (\<lambda>i. Swap i (n - 1 - i)) [0..<n div 2], P)"
    using GRA_eq(2) [OF assms] by (simp add: spec_swaps_def)
  have o: "n mod 2 \<noteq> 0 \<longrightarrow> (\<forall>qc. swaps_odd_branch n qc = swaps_even_branch n qc)"
  proof
    assume "n mod 2 \<noteq> 0"
    then have "(n - 1) div 2 = n div 2" by presburger
    then show "\<forall>qc. swaps_odd_branch n qc = swaps_even_branch n qc"
      by (simp add: swaps_odd_branch_def swaps_even_branch_def)
  qed
  then have e: "GRA_swaps n ?rot = swaps_even_branch n ?rot"
    by (simp add: GRA_swaps_def)
  have v: "\<forall>\<psi>. run (map (\<lambda>i. Swap i (n - 1 - i)) [0..<n div 2]) \<psi> =
      Some (\<lambda>b. \<psi> (reverse_qubits n b))"
    using run_spec_swaps [of n] by (simp add: spec_swaps_def)
  from r g e o v show ?thesis by simp
qed

theorem GRA_final_swaps_witness:
  "\<exists>rot. GRA quad_left 2 (\<lambda>x. 1) 0 1 =
       Inr (rot @ [Swap 0 1], [[1], [1 / 2, 1 / 2], [1 / 4, 1 / 4, 1 / 4, 1 / 4]]) \<and>
     GRA_rotations 2 [[np_arccos (np_sqrt (1 / 2))],
            [np_arccos (np_sqrt (1 / 2)), np_arccos (np_sqrt (1 / 2))],
            [np_arccos (np_sqrt (1 / 2)), np_arccos (np_sqrt (1 / 2)),
             np_arccos (np_sqrt (1 / 2)), np_arccos (np_sqrt (1 / 2))]] = Inr rot"
proof -
  have "(1::nat) \<le> 2" by simp
  from GRA_final_swaps [OF this const_tables] show ?thesis
    by (auto simp add: upt_conv_Cons)
qed

section \<open>Claim about the prepared state\<close>




section \<open>\<^verbatim>\<open>binary_approx\<close>\<close>

subsection \<open>The operations of the loop\<close>

lemma int_truediv_zero: "int_truediv 0 q = 0"
  by (simp add: int_truediv_def round_double_zero)

lemma int_truediv_pow2: "i \<le> 1074 \<Longrightarrow> int_truediv 1 (2 ^ i) = 1 / 2 ^ i"
  using dyadic_double[of 1 i] by (simp add: int_truediv_def)

lemma int_truediv_underflow:
  assumes "1075 \<le> i"
  shows "int_truediv 1 (2 ^ i) = 0"
proof -
  have "(2::real) powi (- int i) \<le> 2 powi (- 1075)"
    using assms by (intro power_int_increasing) simp_all
  moreover have "(1::real) / 2 ^ i = 2 powi (- int i)" by (simp add: power_int_minus field_simps)
  ultimately have "round_double (1 / 2 ^ i) = 0" by (intro round_double_underflow) simp_all
  then show ?thesis unfolding int_truediv_def by simp
qed

lemma float_add_zero: "round_double t = t \<Longrightarrow> float_add t 0 = t"
  by (simp add: float_add_def)

lemma float_add_dyadic:
  assumes "c < 2 ^ j" and "j < 53" and "b \<le> 1"
  shows "float_add (real c / 2 ^ j) (int_truediv (int b) (2 ^ Suc j)) = real (2 * c + b) / 2 ^ Suc j"
    and "real c / 2 ^ j + real b / 2 ^ Suc j = real (2 * c + b) / 2 ^ Suc j"
proof -
  have "(2::nat) ^ Suc j \<le> 2 ^ 53" using assms(2) by (intro power_increasing) simp_all
  moreover have "2 * c + b < 2 ^ Suc j" using assms(1,3) by simp
  ultimately have c': "2 * c + b < 2 ^ 53" by linarith
  have d: "int_truediv (int b) (2 ^ Suc j) = real b / 2 ^ Suc j"
  proof -
    have "b < 2 ^ 53" using c' by linarith
    then have "round_double (real b / 2 ^ Suc j) = real b / 2 ^ Suc j"
      using assms(2) by (intro dyadic_double) simp_all
    then show ?thesis by (simp add: int_truediv_def)
  qed
  show s: "real c / 2 ^ j + real b / 2 ^ Suc j = real (2 * c + b) / 2 ^ Suc j"
    by (simp add: field_simps)
  have "round_double (real (2 * c + b) / 2 ^ Suc j) = real (2 * c + b) / 2 ^ Suc j"
    using c' assms(2) by (intro dyadic_double) simp_all
  then show "float_add (real c / 2 ^ j) (int_truediv (int b) (2 ^ Suc j)) = real (2 * c + b) / 2 ^ Suc j"
    unfolding float_add_def d s .
qed

lemma round_double_tie_one: "round_double (1 - 1 / 2 ^ 53 + 1 / 2 ^ 54) = 1"
proof -
  define x :: real where "x = 1 - 1 / 2 ^ 53 + 1 / 2 ^ 54"
  have x1: "x < 1" and x2: "1 / 2 \<le> x" unfolding x_def by simp_all
  have q: "quantum x = 2 powi (- 1 - 52)"
    by (rule quantum_normal) (use x1 x2 in simp_all)
  have y: "x / 2 powi (- 1 - 52) = 2 ^ 53 - 1 / 2"
    unfolding x_def by (simp add: power_int_minus field_simps)
  have fl: "\<lfloor>(2::real) ^ 53 - 1 / 2\<rfloor> = 2 ^ 53 - 1" by (simp add: floor_eq_iff)
  have "round_half_even (2 ^ 53 - 1 / 2) = 2 ^ 53"
    unfolding round_half_even_def fl by (simp add: Let_def)
  then have "round_double x = 1" unfolding round_double_def q y by (simp add: power_int_minus)
  then show ?thesis unfolding x_def .
qed

subsection \<open>Invariants of the loop\<close>

lemma loop_length:
  "length (fst (binary_approx_loop n is (a, t))) = length a + length is"
  by (induction "is" arbitrary: a t) (simp_all add: Let_def)

lemma loop_append:
  "binary_approx_loop n (xs @ ys) s = binary_approx_loop n ys (binary_approx_loop n xs s)"
proof (induction xs arbitrary: s)
  case Nil show ?case by (cases s) simp
next
  case (Cons i xs) show ?case by (cases s) (simp add: Let_def Cons.IH)
qed

lemma loop_prefix:
  "take (length a) (fst (binary_approx_loop n is (a, t))) = a"
proof (induction "is" arbitrary: a t)
  case Nil show ?case by simp
next
  case (Cons i "is")
  define bit :: nat where "bit = (if n > float_add t (int_truediv 1 (2 ^ i)) then 1 else 0)"
  define t' where "t' = float_add t (int_truediv (int bit) (2 ^ i))"
  have "take (length (a @ [bit])) (fst (binary_approx_loop n is (a @ [bit], t'))) = a @ [bit]"
    by (rule Cons.IH)
  then have "take (length a) (take (length (a @ [bit])) (fst (binary_approx_loop n is (a @ [bit], t')))) = a"
    by simp
  then show ?case by (simp add: Let_def min_def bit_def t'_def)
qed

lemma loop_bits:
  "set a \<subseteq> {0, 1} \<Longrightarrow> set (fst (binary_approx_loop n is (a, t))) \<subseteq> {0, 1}"
  by (induction "is" arbitrary: a t) (simp_all add: Let_def)

lemma loop_exact:
  "c < 2 ^ j \<Longrightarrow> j + d \<le> 53 \<Longrightarrow>
   binary_approx_loop n [Suc j..<Suc j + d] (a, real c / 2 ^ j) =
   exact_loop n [Suc j..<Suc j + d] (a, real c / 2 ^ j)"
proof (induction d arbitrary: j a c)
  case 0 show ?case by simp
next
  case (Suc d)
  have j: "j < 53" using Suc.prems(2) by simp
  have l: "[Suc j..<Suc j + Suc d] = Suc j # [Suc (Suc j)..<Suc (Suc j) + d]"
    by (simp add: upt_conv_Cons)
  define bit :: nat where "bit = (if n > real c / 2 ^ j + 1 / 2 ^ Suc j then 1 else 0)"
  have b: "bit \<le> 1" unfolding bit_def by simp
  have test: "float_add (real c / 2 ^ j) (int_truediv 1 (2 ^ Suc j)) = real c / 2 ^ j + 1 / 2 ^ Suc j"
    using float_add_dyadic[OF Suc.prems(1) j, of 1] by simp
  have upd: "float_add (real c / 2 ^ j) (int_truediv (int bit) (2 ^ Suc j)) = real (2 * c + bit) / 2 ^ Suc j"
    and upd': "real c / 2 ^ j + real bit / 2 ^ Suc j = real (2 * c + bit) / 2 ^ Suc j"
    using float_add_dyadic[OF Suc.prems(1) j b] by blast+
  have c': "2 * c + bit < 2 ^ Suc j" using Suc.prems(1) b by simp
  have "binary_approx_loop n [Suc j..<Suc j + Suc d] (a, real c / 2 ^ j) =
        binary_approx_loop n [Suc (Suc j)..<Suc (Suc j) + d] (a @ [bit], real (2 * c + bit) / 2 ^ Suc j)"
    unfolding l binary_approx_loop.simps test Let_def bit_def[symmetric] upd ..
  also have "\<dots> = exact_loop n [Suc (Suc j)..<Suc (Suc j) + d] (a @ [bit], real (2 * c + bit) / 2 ^ Suc j)"
    using c' Suc.prems(2) by (intro Suc.IH) simp_all
  also have "\<dots> = exact_loop n [Suc j..<Suc j + Suc d] (a, real c / 2 ^ j)"
    unfolding l exact_loop.simps Let_def bit_def[symmetric] upd' ..
  finally show ?case .
qed

lemma exact_prefix:
  "take (length a) (fst (exact_loop n is (a, t))) = a"
proof (induction "is" arbitrary: a t)
  case Nil show ?case by simp
next
  case (Cons i "is")
  let ?bit = "(if n > t + 1 / 2 ^ i then 1 else 0) :: nat"
  have "take (length (a @ [?bit])) (fst (exact_loop n is (a @ [?bit], t + real ?bit / 2 ^ i))) = a @ [?bit]"
    by (rule Cons.IH)
  then have "take (length a) (take (length (a @ [?bit])) (fst (exact_loop n is (a @ [?bit], t + real ?bit / 2 ^ i)))) = a"
    by simp
  then show ?case by (simp add: Let_def min_def)
qed

lemma exact_total:
  "snd (exact_loop n is (a, t)) =
     t + (\<Sum>p < length is. real (fst (exact_loop n is (a, t)) ! (length a + p)) / 2 ^ (is ! p))"
proof (induction "is" arbitrary: a t)
  case Nil show ?case by simp
next
  case (Cons i "is")
  let ?bit = "(if n > t + 1 / 2 ^ i then 1 else 0) :: nat"
  let ?r = "exact_loop n is (a @ [?bit], t + real ?bit / 2 ^ i)"
  have r: "exact_loop n (i # is) (a, t) = ?r" by (simp add: Let_def)
  have "take (length (a @ [?bit])) (fst ?r) = a @ [?bit]" by (rule exact_prefix)
  then have "take (length (a @ [?bit])) (fst ?r) ! length a = (a @ [?bit]) ! length a" by simp
  then have b: "fst ?r ! length a = ?bit" by simp
  have "snd ?r = (t + real ?bit / 2 ^ i) + (\<Sum>p < length is. real (fst ?r ! (length (a @ [?bit]) + p)) / 2 ^ (is ! p))"
    by (rule Cons.IH)
  also have "\<dots> = t + (real (fst ?r ! length a) / 2 ^ i + (\<Sum>p < length is. real (fst ?r ! (length a + Suc p)) / 2 ^ (is ! p)))"
    using b by simp
  also have "\<dots> = t + (\<Sum>p < Suc (length is). real (fst ?r ! (length a + p)) / 2 ^ ((i # is) ! p))"
    by (subst sum.lessThan_Suc_shift) simp
  finally show ?case unfolding r by simp
qed

lemma exact_bounds:
  "t \<le> n \<Longrightarrow> n - t \<le> 1 / 2 ^ j \<Longrightarrow>
   snd (exact_loop n [Suc j..<Suc j + d] (a, t)) \<le> n \<and>
   n - snd (exact_loop n [Suc j..<Suc j + d] (a, t)) \<le> 1 / 2 ^ (j + d) \<and>
   t \<le> snd (exact_loop n [Suc j..<Suc j + d] (a, t))"
proof (induction d arbitrary: j a t)
  case 0 then show ?case by simp
next
  case (Suc d)
  let ?i = "Suc j"
  let ?bit = "(if n > t + 1 / 2 ^ ?i then 1 else 0) :: nat"
  let ?t' = "t + real ?bit / 2 ^ ?i"
  have l: "[Suc j..<Suc j + Suc d] = Suc j # [Suc (Suc j)..<Suc (Suc j) + d]"
    by (simp add: upt_conv_Cons)
  have t1: "?t' \<le> n" using Suc.prems(1) by auto
  have "1 / (2::real) ^ j = 2 * (1 / 2 ^ Suc j)" by simp
  with Suc.prems have t2: "n - ?t' \<le> 1 / 2 ^ Suc j" by (auto simp del: power_Suc)
  have t3: "t \<le> ?t'" by simp
  have r: "exact_loop n [Suc j..<Suc j + Suc d] (a, t) =
      exact_loop n [Suc (Suc j)..<Suc (Suc j) + d] (a @ [?bit], ?t')"
    unfolding l by (simp add: Let_def del: power_Suc upt_Suc)
  define s where "s = snd (exact_loop n [Suc (Suc j)..<Suc (Suc j) + d] (a @ [?bit], ?t'))"
  from Suc.IH[OF t1 t2, of "a @ [?bit]"]
  have "s \<le> n" "n - s \<le> 1 / 2 ^ (Suc j + d)" "?t' \<le> s"
    unfolding s_def by blast+
  moreover from t3 \<open>?t' \<le> s\<close> have "t \<le> s" by (rule order_trans)
  ultimately show ?case
    unfolding r s_def by (simp del: power_Suc upt_Suc)
qed

lemma binary_approx_exact:
  assumes "0 \<le> k" and "k \<le> 53"
  shows "binary_approx n k = exact_loop n [1..<nat (k + 1)] ([], 0)"
proof -
  have l: "[1..<nat (k + 1)] = [Suc 0..<Suc 0 + nat k]" using assms(1) by (simp add: nat_add_distrib)
  have "binary_approx_loop n [Suc 0..<Suc 0 + nat k] ([], real 0 / 2 ^ 0) =
        exact_loop n [Suc 0..<Suc 0 + nat k] ([], real 0 / 2 ^ 0)"
    using assms(2) by (intro loop_exact) simp_all
  then show ?thesis unfolding binary_approx_def l by simp
qed

subsection \<open>Every bit is decided by the rounded sum\<close>

lemma double_zero_or_min:
  assumes "0 \<le> t" and "round_double t = t"
  shows "t = 0 \<or> 2 powi (- 1074) \<le> t"
proof -
  obtain m e where m: "0 \<le> m" and e: "- 1074 \<le> e" and t: "round_double t = of_int m * 2 powi e"
    using round_double_range[OF assms(1)] by blast
  show ?thesis
  proof (cases "m = 0")
    case True
    then show ?thesis using t assms(2) by simp
  next
    case False
    with m have "1 \<le> real_of_int m" by linarith
    then have "1 * 2 powi e \<le> real_of_int m * 2 powi e"
      using zero_less_power_int[of "2::real" e] by (intro mult_right_mono) simp_all
    moreover have "(2::real) powi (- 1074) \<le> 2 powi e" using e by (intro power_int_increasing) simp_all
    ultimately have "(2::real) powi (- 1074) \<le> real_of_int m * 2 powi e" by (simp only: mult_1)
    then show ?thesis unfolding t[symmetric] assms(2) ..
  qed
qed

lemma int_truediv_nonneg: "0 \<le> int_truediv 1 (2 ^ i)"
  unfolding int_truediv_def by (rule round_double_nonneg) simp

lemma step_facts:
  fixes n t :: real and i :: nat
  assumes "0 \<le> t" and "round_double t = t"
  defines "t' \<equiv> float_add t (int_truediv (int (if n > float_add t (int_truediv 1 (2 ^ i)) then 1 else 0)) (2 ^ i))"
  shows "0 \<le> t'" and "round_double t' = t'" and "t < n \<Longrightarrow> t' < n"
proof -
  have d: "0 \<le> t + int_truediv 1 (2 ^ i)" using assms(1) int_truediv_nonneg[of i] by linarith
  show "0 \<le> t'"
    unfolding t'_def float_add_def by (rule round_double_nonneg) (use d assms(1) in \<open>simp add: int_truediv_zero\<close>)
  show "round_double t' = t'"
    unfolding t'_def float_add_def by (rule round_double_idem) (use d assms(1) in \<open>simp add: int_truediv_zero\<close>)
  show "t' < n" if "t < n"
    unfolding t'_def using that float_add_zero[OF assms(2)] by (simp add: int_truediv_zero)
qed

lemma loop_strict:
  "0 \<le> t \<Longrightarrow> round_double t = t \<Longrightarrow> t < n \<Longrightarrow> snd (binary_approx_loop n is (a, t)) < n"
proof (induction "is" arbitrary: a t)
  case Nil then show ?case by simp
next
  case (Cons i "is")
  show ?case
    unfolding binary_approx_loop.simps Let_def
    by (rule Cons.IH) (rule step_facts[OF Cons.prems(1,2)], rule step_facts[OF Cons.prems(1,2)],
      rule step_facts[OF Cons.prems(1,2)], rule Cons.prems(3))
qed

lemma loop_stays_positive:
  "2 powi (- 1074) \<le> t \<Longrightarrow> round_double t = t \<Longrightarrow> 2 powi (- 1074) \<le> snd (binary_approx_loop n is (a, t))"
proof (induction "is" arbitrary: a t)
  case Nil then show ?case by simp
next
  case (Cons i "is")
  have t0: "0 \<le> t" using Cons.prems(1) zero_less_power_int[of "2::real" "- 1074"] by linarith
  define bit :: nat where "bit = (if n > float_add t (int_truediv 1 (2 ^ i)) then 1 else 0)"
  define t' where "t' = float_add t (int_truediv (int bit) (2 ^ i))"
  have "0 \<le> int_truediv (int bit) (2 ^ i)"
    unfolding bit_def using int_truediv_nonneg[of i] by (simp add: int_truediv_zero)
  then have "2 powi (- 1074) \<le> t + int_truediv (int bit) (2 ^ i)" using Cons.prems(1) by linarith
  then have 1: "2 powi (- 1074) \<le> t'" unfolding t'_def float_add_def by (rule round_double_ge_min)
  have 2: "round_double t' = t'"
    unfolding t'_def bit_def by (rule step_facts(2)[OF t0 Cons.prems(2)])
  show ?case
    unfolding binary_approx_loop.simps Let_def bit_def[symmetric] t'_def[symmetric]
    using 1 2 by (rule Cons.IH)
qed

lemma loop_zero_iff:
  "snd (binary_approx_loop n is (a, 0)) = 0 \<longleftrightarrow>
     (\<forall>p < length is. is ! p \<le> 1074 \<longrightarrow> fst (binary_approx_loop n is (a, 0)) ! (length a + p) = 0)"
proof (induction "is" arbitrary: a)
  case Nil show ?case by simp
next
  case (Cons i "is")
  define bit :: nat where "bit = (if n > float_add 0 (int_truediv 1 (2 ^ i)) then 1 else 0)"
  define t' where "t' = float_add 0 (int_truediv (int bit) (2 ^ i))"
  define r where "r = binary_approx_loop n is (a @ [bit], t')"
  have r: "binary_approx_loop n (i # is) (a, 0) = r"
    unfolding r_def t'_def bit_def by (simp add: Let_def)
  have "take (length (a @ [bit])) (fst r) = a @ [bit]" unfolding r_def by (rule loop_prefix)
  then have "take (length (a @ [bit])) (fst r) ! length a = (a @ [bit]) ! length a" by simp
  then have b: "fst r ! length a = bit" by simp
  have split: "(\<forall>p < length (i # is). (i # is) ! p \<le> 1074 \<longrightarrow> fst r ! (length a + p) = 0) \<longleftrightarrow>
      ((i \<le> 1074 \<longrightarrow> bit = 0) \<and> (\<forall>p < length is. is ! p \<le> 1074 \<longrightarrow> fst r ! (length (a @ [bit]) + p) = 0))"
    using b by (auto simp add: less_Suc_eq_0_disj)
  show ?case
  proof (cases "i \<le> 1074 \<and> bit = 1")
    case True
    then have "t' = 1 / 2 ^ i"
      unfolding t'_def float_add_def using int_truediv_pow2[of i] dyadic_double[of 1 i] by simp
    moreover have "2 powi (- 1074) \<le> (1::real) / 2 ^ i"
    proof -
      have "(2::real) powi (- 1074) \<le> 2 powi (- int i)" using True by (intro power_int_increasing) simp_all
      then show ?thesis by (simp add: power_int_minus field_simps)
    qed
    moreover have "round_double (1 / 2 ^ i) = 1 / 2 ^ i" using dyadic_double[of 1 i] True by simp
    ultimately have "2 powi (- 1074) \<le> snd r" unfolding r_def by (intro loop_stays_positive) simp_all
    then have "snd r \<noteq> 0" using zero_less_power_int[of "2::real" "- 1074"] by linarith
    with True show ?thesis unfolding r split by simp
  next
    case False
    have "t' = 0"
    proof (cases "bit = 0")
      case True
      then show ?thesis unfolding t'_def float_add_def by (simp add: int_truediv_zero round_double_zero)
    next
      case b1: False
      then have "bit = 1" unfolding bit_def by (simp split: if_splits)
      with False have "1075 \<le> i" by simp
      then have "int_truediv 1 (2 ^ i) = 0" by (rule int_truediv_underflow)
      then show ?thesis unfolding t'_def float_add_def using \<open>bit = 1\<close> by (simp add: round_double_zero)
    qed
    then have "snd r = 0 \<longleftrightarrow> (\<forall>p < length is. is ! p \<le> 1074 \<longrightarrow> fst r ! (length (a @ [bit]) + p) = 0)"
      unfolding r_def using Cons.IH[of "a @ [bit]"] by simp
    moreover have "i \<le> 1074 \<longrightarrow> bit = 0" using False unfolding bit_def by (simp split: if_splits)
    ultimately show ?thesis unfolding r split by simp
  qed
qed

subsection \<open>Two runs of the loop\<close>

text \<open>
  On \<open>n = 1\<close> the first \<open>53\<close> bits are set and the total is \<open>1 - 2 ^ (- 53)\<close>, the largest double
  below \<open>1\<close>. On \<open>n = 2 ^ (- 1074)\<close>, the smallest positive double, the first \<open>1074\<close> bits are not
  set, and from position \<open>1075\<close> on \<^verbatim>\<open>1/2**i\<close> is \<open>0.0\<close>.
\<close>

lemma loop_ones:
  "j + d \<le> 53 \<Longrightarrow>
   binary_approx_loop 1 [Suc j..<Suc j + d] (a, 1 - 1 / 2 ^ j) = (a @ replicate d 1, 1 - 1 / 2 ^ (j + d))"
proof (induction d arbitrary: j a)
  case 0 show ?case by simp
next
  case (Suc d)
  have j: "j < 53" using Suc.prems by simp
  have l: "[Suc j..<Suc j + Suc d] = Suc j # [Suc (Suc j)..<Suc (Suc j) + d]"
    by (simp add: upt_conv_Cons)
  have c: "(2::nat) ^ j - 1 < 2 ^ j" by simp
  have t: "real (2 ^ j - 1) / 2 ^ j = 1 - 1 / 2 ^ j" by (simp add: of_nat_diff field_simps)
  have t': "real (2 * (2 ^ j - 1) + 1) / 2 ^ Suc j = 1 - 1 / 2 ^ Suc j"
    by (simp add: of_nat_diff field_simps)
  have test: "float_add (1 - 1 / 2 ^ j) (int_truediv 1 (2 ^ Suc j)) = 1 - 1 / 2 ^ Suc j"
    using float_add_dyadic(1)[OF c j, of 1] unfolding t t' by simp
  have lt: "(1::real) > 1 - 1 / 2 ^ Suc j" by simp
  have "binary_approx_loop 1 [Suc j..<Suc j + Suc d] (a, 1 - 1 / 2 ^ j) =
        binary_approx_loop 1 [Suc (Suc j)..<Suc (Suc j) + d] (a @ [1], 1 - 1 / 2 ^ Suc j)"
    unfolding l binary_approx_loop.simps test Let_def using lt test by simp
  also have "\<dots> = ((a @ [1]) @ replicate d 1, 1 - 1 / 2 ^ (Suc j + d))"
    using Suc.prems by (intro Suc.IH) simp
  finally show ?case by (simp add: replicate_app_Cons_same)
qed

lemma loop_underflow_step:
  assumes "1075 \<le> i" and "0 < n"
  shows "binary_approx_loop n [i] (a, 0) = (a @ [1], 0)"
proof -
  have d: "int_truediv 1 (2 ^ i) = 0" using assms(1) by (rule int_truediv_underflow)
  show ?thesis
    unfolding binary_approx_loop.simps Let_def using assms(2) d
    by (simp add: float_add_def round_double_zero)
qed

lemma loop_zeros:
  "j + d \<le> 1074 \<Longrightarrow>
   binary_approx_loop (1 / 2 ^ 1074) [Suc j..<Suc j + d] (a, 0) = (a @ replicate d 0, 0)"
proof (induction d arbitrary: j a)
  case 0 show ?case by simp
next
  case (Suc d)
  have j: "Suc j \<le> 1074" using Suc.prems by simp
  have l: "[Suc j..<Suc j + Suc d] = Suc j # [Suc (Suc j)..<Suc (Suc j) + d]"
    by (simp add: upt_conv_Cons)
  have test: "float_add 0 (int_truediv 1 (2 ^ Suc j)) = 1 / 2 ^ Suc j"
    unfolding float_add_def using int_truediv_pow2[OF j] dyadic_double[of 1 "Suc j"] j by simp
  have "(1::real) / 2 ^ 1074 \<le> 1 / 2 ^ Suc j"
    using j by (intro divide_left_mono power_increasing) simp_all
  then have no: "\<not> (1::real) / 2 ^ 1074 > 1 / 2 ^ Suc j" by linarith
  have keep: "float_add 0 (int_truediv 0 (2 ^ Suc j)) = 0"
    by (simp add: float_add_def int_truediv_zero round_double_zero)
  have "binary_approx_loop (1 / 2 ^ 1074) [Suc j..<Suc j + Suc d] (a, 0) =
        binary_approx_loop (1 / 2 ^ 1074) [Suc (Suc j)..<Suc (Suc j) + d] (a @ [0], 0)"
    unfolding l binary_approx_loop.simps test Let_def if_not_P[OF no] using keep by simp
  also have "\<dots> = ((a @ [0]) @ replicate d 0, 0)"
    using Suc.prems by (intro Suc.IH) simp
  finally show ?case by (simp add: replicate_app_Cons_same)
qed

lemma binary_approx_last:
  assumes "0 \<le> k"
  shows "binary_approx n (k + 1) = binary_approx_loop n [nat k + 1] (binary_approx n k)"
proof -
  have "[1..<nat (k + 1 + 1)] = [1..<nat (k + 1)] @ [nat k + 1]"
    using assms by (simp add: nat_add_distrib)
  then show ?thesis unfolding binary_approx_def by (simp only: loop_append)
qed

lemma binary_approx_zeros: "binary_approx (1 / 2 ^ 1074) 1074 = (replicate 1074 0, 0)"
proof -
  have "binary_approx_loop (1 / 2 ^ 1074) [Suc 0..<Suc 0 + 1074] ([], 0) = ([] @ replicate 1074 0, 0)"
    by (rule loop_zeros) simp
  then show ?thesis unfolding binary_approx_def by simp
qed

subsection \<open>Claims\<close>

text \<open>
  C5 (as amended). For a real \<open>n\<close> with \<open>0 \<le> n \<le> 1\<close> and an integer \<open>k\<close> with \<open>0 \<le> k \<le> 53\<close>,
  \<^verbatim>\<open>binary_approx(n, k)\<close> returns a list \<open>a\<close> of exactly \<open>k\<close> elements, each \<open>0\<close> or \<open>1\<close>, and a total
  that is the sum of \<open>a[i-1] / 2 ^ i\<close> over \<open>i = 1, \<dots>, k\<close>, with \<open>0 \<le> total \<le> n\<close> and
  \<open>n - total \<le> 1 / 2 ^ k\<close>: up to \<open>53\<close> bits every sum of the loop is a double and nothing is
  rounded.
\<close>

theorem binary_approx_spec:
  assumes "0 \<le> n" and "n \<le> 1" and "0 \<le> k" and "k \<le> 53"
  shows "length (fst (binary_approx n k)) = nat k \<and>
         set (fst (binary_approx n k)) \<subseteq> {0, 1} \<and>
         snd (binary_approx n k) = (\<Sum>i = 1..nat k. real (fst (binary_approx n k) ! (i - 1)) / 2 ^ i) \<and>
         0 \<le> snd (binary_approx n k) \<and> snd (binary_approx n k) \<le> n \<and>
         n - snd (binary_approx n k) \<le> 1 / 2 ^ nat k"
proof -
  let ?is = "[1..<nat (k + 1)]"
  let ?r = "exact_loop n ?is ([], 0)"
  have e: "binary_approx n k = ?r" using assms(3,4) by (rule binary_approx_exact)
  have l: "?is = [Suc 0..<Suc 0 + nat k]" using assms(3) by (simp add: nat_add_distrib)
  have len: "length ?is = nat k" by auto
  have a: "length (fst (binary_approx n k)) = nat k"
    unfolding binary_approx_def using loop_length [of n ?is "[]" 0] by simp
  have b: "set (fst (binary_approx n k)) \<subseteq> {0, 1}"
    unfolding binary_approx_def by (rule loop_bits) simp
  from assms have "n - 0 \<le> 1 / 2 ^ (0::nat)" by simp
  from exact_bounds [OF assms(1) this, of "nat k" "[]"]
  have c: "snd (binary_approx n k) \<le> n" "n - snd (binary_approx n k) \<le> 1 / 2 ^ nat k"
      "0 \<le> snd (binary_approx n k)"
    unfolding e l by simp_all
  have "snd ?r = 0 + (\<Sum>p < length ?is. real (fst ?r ! (length ([]::nat list) + p)) / 2 ^ (?is ! p))"
    by (rule exact_total)
  also have "\<dots> = (\<Sum>p < nat k. real (fst ?r ! p) / 2 ^ (?is ! p))"
    unfolding len by simp
  also have "\<dots> = (\<Sum>p < nat k. real (fst ?r ! (Suc p - 1)) / 2 ^ Suc p)"
    by (rule sum.cong) (auto simp del: power_Suc)
  also have "\<dots> = (\<Sum>i = Suc 0..nat k. real (fst ?r ! (i - 1)) / 2 ^ i)"
    by (rule sum.atLeast1_atMost_eq [symmetric])
  finally have d: "snd (binary_approx n k) = (\<Sum>i = 1..nat k. real (fst (binary_approx n k) ! (i - 1)) / 2 ^ i)"
    unfolding e by simp
  from a b c d show ?thesis by blast
qed

theorem binary_approx_spec_witness:
  "length (fst (binary_approx (7 / 10) 4)) = 4 \<and>
   snd (binary_approx (7 / 10) 4) \<le> 7 / 10 \<and>
   7 / 10 - snd (binary_approx (7 / 10) 4) \<le> 1 / 2 ^ 4 \<and>
   binary_approx (7 / 10) 4 = ([1, 0, 1, 1], 11 / 16)"
proof -
  have "binary_approx (7 / 10) 4 = exact_loop (7 / 10) [1..<nat (4 + 1)] ([], 0)"
    by (rule binary_approx_exact) simp_all
  also have "\<dots> = ([1, 0, 1, 1], 11 / 16)"
    by (simp add: upt_conv_Cons Let_def)
  finally have "binary_approx (7 / 10) 4 = ([1, 0, 1, 1], 11 / 16)" .
  moreover have "(0::real) \<le> 7 / 10" "(7::real) / 10 \<le> 1" "(0::int) \<le> 4" "(4::int) \<le> 53" by simp_all
  note binary_approx_spec [OF this]
  ultimately show ?thesis by simp
qed

text \<open>
  With \<open>k = 54\<close> the bound fails at \<open>n = 1\<close>: the sum \<open>1 - 2 ^ (- 53) + 2 ^ (- 54)\<close> of the test is
  rounded to \<open>1\<close>, the bit \<open>54\<close> is not set, and \<open>n - total = 2 ^ (- 53)\<close>.
\<close>

theorem binary_approx_bound_counterexample:
  "binary_approx 1 54 = (replicate 53 1 @ [0], 1 - 1 / 2 ^ 53) \<and>
   \<not> 1 - snd (binary_approx 1 54) \<le> 1 / 2 ^ 54"
proof -
  have l: "[1..<nat (54 + 1)] = [Suc 0..<Suc 0 + 53] @ [54]" by (simp add: upt_conv_Cons)
  have a: "binary_approx_loop 1 [Suc 0..<Suc 0 + 53] ([], 1 - 1 / 2 ^ 0) = ([] @ replicate 53 1, 1 - 1 / 2 ^ (0 + 53))"
    by (rule loop_ones) simp
  have keep: "round_double (1 - 1 / 2 ^ 53) = 1 - 1 / 2 ^ 53"
    using dyadic_double[of "2 ^ 53 - 1" 53] by simp
  have d: "int_truediv 1 (2 ^ 54) = 1 / 2 ^ 54" by (rule int_truediv_pow2) simp
  have tie: "float_add (1 - 1 / 2 ^ 53) (int_truediv 1 (2 ^ 54)) = 1"
    unfolding float_add_def d by (rule round_double_tie_one)
  have "binary_approx 1 54 = binary_approx_loop 1 [54] (replicate 53 1, 1 - 1 / 2 ^ 53)"
    unfolding binary_approx_def l loop_append using a by simp
  also have "\<dots> = (replicate 53 1 @ [0], 1 - 1 / 2 ^ 53)"
    unfolding binary_approx_loop.simps tie Let_def using float_add_zero[OF keep] int_truediv_zero by simp
  finally have r: "binary_approx 1 54 = (replicate 53 1 @ [0], 1 - 1 / 2 ^ 53)" .
  show ?thesis unfolding r by simp
qed

text \<open>
  C10 (as amended). For a real \<open>n > 0\<close> and an integer \<open>k \<ge> 1\<close> the total is strictly below \<open>n\<close>,
  so it is never an exact representation of \<open>n\<close>, also when \<open>n\<close> is a \<open>k\<close>-bit binary fraction
  such as \<open>1 / 2\<close>; and the total is \<open>0\<close> exactly when none of the first \<open>1074\<close> bits is set: a
  bit at a later position adds \<^verbatim>\<open>1/2**i = 0.0\<close>.
\<close>

theorem binary_approx_strictly_below:
  assumes "0 < n" and "1 \<le> k"
  shows "snd (binary_approx n k) < n \<and> snd (binary_approx n k) \<noteq> n \<and>
         (snd (binary_approx n k) = 0 \<longleftrightarrow> (\<forall>b \<in> set (take 1074 (fst (binary_approx n k))). b = 0))"
proof -
  let ?is = "[1..<nat (k + 1)]"
  let ?a = "fst (binary_approx n k)"
  have lt: "snd (binary_approx n k) < n"
    unfolding binary_approx_def using assms(1) by (intro loop_strict) (simp_all add: round_double_zero)
  have len: "length ?a = length ?is"
    unfolding binary_approx_def using loop_length [of n ?is "[]" 0] by simp
  have "snd (binary_approx n k) = 0 \<longleftrightarrow> (\<forall>p < length ?is. ?is ! p \<le> 1074 \<longrightarrow> ?a ! (length ([]::nat list) + p) = 0)"
    unfolding binary_approx_def by (rule loop_zero_iff)
  also have "\<dots> \<longleftrightarrow> (\<forall>p < length ?a. p < 1074 \<longrightarrow> ?a ! p = 0)"
    unfolding len by (intro all_cong1 imp_cong refl) auto
  also have "\<dots> \<longleftrightarrow> (\<forall>p < length (take 1074 ?a). take 1074 ?a ! p = 0)" by auto
  also have "\<dots> \<longleftrightarrow> (\<forall>b \<in> set (take 1074 ?a). b = 0)"
    by (simp only: all_set_conv_all_nth)
  finally show ?thesis using lt by simp
qed

theorem binary_approx_strictly_below_witness:
  "binary_approx (1 / 2) 1 = ([0], 0) \<and> snd (binary_approx (1 / 2) 1) < 1 / 2"
proof -
  have "binary_approx (1 / 2) 1 = exact_loop (1 / 2) [1..<nat (1 + 1)] ([], 0)"
    by (rule binary_approx_exact) simp_all
  also have "\<dots> = ([0], 0)" by (simp add: upt_conv_Cons Let_def)
  finally have "binary_approx (1 / 2) 1 = ([0], 0)" .
  moreover have "(0::real) < 1 / 2" "(1::int) \<le> 1" by simp_all
  note binary_approx_strictly_below [OF this]
  ultimately show ?thesis by simp
qed

text \<open>
  On the smallest positive double with \<open>k = 1075\<close> the last bit is set and the total is \<open>0\<close>.
\<close>

theorem binary_approx_zero_counterexample:
  "binary_approx (1 / 2 ^ 1074) 1075 = (replicate 1074 0 @ [1], 0) \<and>
   snd (binary_approx (1 / 2 ^ 1074) 1075) = 0 \<and> fst (binary_approx (1 / 2 ^ 1074) 1075) ! 1074 = 1"
proof -
  have "binary_approx (1 / 2 ^ 1074) (1074 + 1) =
        binary_approx_loop (1 / 2 ^ 1074) [nat 1074 + 1] (binary_approx (1 / 2 ^ 1074) 1074)"
    by (rule binary_approx_last) simp
  also have "\<dots> = binary_approx_loop (1 / 2 ^ 1074) [1075] (replicate 1074 0, 0)"
    unfolding binary_approx_zeros by simp
  also have "\<dots> = (replicate 1074 0 @ [1], 0)"
    by (rule loop_underflow_step) simp_all
  finally have r: "binary_approx (1 / 2 ^ 1074) 1075 = (replicate 1074 0 @ [1], 0)" by simp
  show ?thesis unfolding r by (simp add: nth_append)
qed

section \<open>\<^verbatim>\<open>f\<close>, \<^verbatim>\<open>angle\<close> and \<^verbatim>\<open>KWA\<close>\<close>

subsection \<open>The square of \<open>sigma\<close>\<close>



lemma float_square_one: "float_square 1 = Inr 1"
  using dyadic_double[of 1 0] by (simp add: float_square_def)

lemma float_square_half: "float_square (1 / 2) = Inr (1 / 4)"
  using dyadic_double[of 1 2] by (simp add: float_square_def power2_eq_square)

subsection \<open>The sum\<close>






lemma angle_nan_example: "angle 30 1 (Some 0) = Inr None"
proof -
  have z: "np_exp (- 900) = 0" by (rule np_exp_underflow) simp
  have a: "f 30 1 0 = Inr (Some 0)"
    by (simp add: f_def float_square_one gauss_term_def np_arange_def z)
  have b: "f (30 / 2) (1 / 2) 0 = Inr (Some 0)"
    by (simp add: f_def float_square_half gauss_term_def np_arange_def z)
  show ?thesis using a b by (simp add: angle_def)
qed

subsection \<open>Claims\<close>




text \<open>
  C6. For every input, \<^verbatim>\<open>KWA\<close> returns \<^verbatim>\<open>None\<close>: it constructs no circuit.
\<close>

theorem KWA_returns_None: "KWA mu sigma k N = None"
  by (simp add: KWA_def)

end
